theory Spec2Isabelle
  imports Complex_Main
begin

section \<open>Scores\<close>

text \<open>
  Scores are Python numbers: the terminal constants are integers, \<open>evaluate\<close> returns a
  float, and the search window starts at \<open>-math.inf\<close> and \<open>math.inf\<close>. The model keeps
  the two infinities apart from the finite scores. Finite scores are real numbers: the
  rounding of the float arithmetic inside \<open>evaluate\<close> is not modelled. A score
  computed here is the exact sum, which can differ from the float the source computes in
  the last digits (1.4 here where the float is 1.4000000000000001), and two exact scores
  that tie can be floats that differ. The theorems about \<open>minimax\<close> below do not unfold
  this arithmetic: they use only that the score of \<open>evaluate\<close> is finite and that scores
  are totally ordered, which holds of the floats as well.
\<close>

datatype score = NegInf | Fin real | PosInf

instantiation score :: linorder
begin

fun less_eq_score :: "score \<Rightarrow> score \<Rightarrow> bool" where
  "less_eq_score NegInf _ = True"
| "less_eq_score _ PosInf = True"
| "less_eq_score (Fin x) (Fin y) = (x \<le> y)"
| "less_eq_score _ _ = False"

definition less_score :: "score \<Rightarrow> score \<Rightarrow> bool" where
  "less_score a b = (a \<le> b \<and> \<not> b \<le> a)"

instance
proof
  fix x y z :: score
  show "(x < y) = (x \<le> y \<and> \<not> y \<le> x)" by (simp add: less_score_def)
  show "x \<le> x" by (cases x) simp_all
  show "x \<le> y \<Longrightarrow> y \<le> z \<Longrightarrow> x \<le> z" by (cases x; cases y; cases z) simp_all
  show "x \<le> y \<Longrightarrow> y \<le> x \<Longrightarrow> x = y" by (cases x; cases y) simp_all
  show "x \<le> y \<or> y \<le> x" by (cases x; cases y) auto
qed

end

section \<open>The board of the rules engine\<close>

text \<open>
  The board is an object of the chess library, which is not part of the repository. The
  model keeps what the source touches: the piece on each square, the side to move (the
  attribute \<open>board.turn\<close>, which \<open>evaluate\<close> assigns), whatever else a position
  holds (castling rights, en-passant square, clocks) as \<open>extra\<close>, the stack of moves
  made, and the stack of positions saved by \<open>push\<close>, from which \<open>pop\<close> restores the
  position, side to move included.
\<close>

datatype piece_type = PAWN | KNIGHT | BISHOP | ROOK | QUEEN | KING

type_synonym color = bool

abbreviation WHITE :: color where "WHITE \<equiv> True"

abbreviation BLACK :: color where "BLACK \<equiv> False"

type_synonym square = nat

type_synonym piece = "piece_type \<times> color"

record 'x position =
  piece_map :: "square \<Rightarrow> piece option"
  turn :: color
  extra :: 'x

record ('x, 'm) board =
  pos :: "'x position"
  move_stack :: "'m list"
  stack :: "'x position list"

datatype error = IndexError

text \<open>
  What the source asks of the library and cannot be read from the repository is a
  parameter of the model: the legal moves of a board in the library's order, the position
  a move leads to, the check test, the three game-over tests, and the generator behind
  \<open>random.choice\<close>.
\<close>

record ('x, 'm, 'r) rules =
  legal_moves :: "('x, 'm) board \<Rightarrow> 'm list"
  make_move :: "'m \<Rightarrow> ('x, 'm) board \<Rightarrow> 'x position"
  is_check :: "('x, 'm) board \<Rightarrow> bool"
  is_game_over :: "('x, 'm) board \<Rightarrow> bool"
  is_checkmate :: "('x, 'm) board \<Rightarrow> bool"
  is_stalemate :: "('x, 'm) board \<Rightarrow> bool"
  randbelow :: "'r \<Rightarrow> nat \<Rightarrow> nat \<times> 'r"

definition set_turn :: "color \<Rightarrow> ('x, 'm) board \<Rightarrow> ('x, 'm) board" where
  "set_turn c b = b\<lparr>pos := (pos b)\<lparr>turn := c\<rparr>\<rparr>"

definition push :: "('x, 'm, 'r) rules \<Rightarrow> 'm \<Rightarrow> ('x, 'm) board \<Rightarrow> ('x, 'm) board" where
  "push R m b =
     \<lparr>pos = make_move R m b, move_stack = m # move_stack b, stack = pos b # stack b\<rparr>"

definition pop :: "('x, 'm) board \<Rightarrow> error + ('x, 'm) board" where
  "pop b =
     (case move_stack b of
        [] \<Rightarrow> Inl IndexError
      | m # ms \<Rightarrow>
          (case stack b of
             [] \<Rightarrow> Inl IndexError
           | s # ss \<Rightarrow> Inr \<lparr>pos = s, move_stack = ms, stack = ss\<rparr>))"

definition piece_at :: "('x, 'm) board \<Rightarrow> square \<Rightarrow> piece option" where
  "piece_at b sq = piece_map (pos b) sq"

definition pieces :: "('x, 'm) board \<Rightarrow> piece_type \<Rightarrow> color \<Rightarrow> square list" where
  "pieces b pt c = filter (\<lambda>sq. piece_at b sq = Some (pt, c)) [0..<64]"

definition choice :: "('x, 'm, 'r) rules \<Rightarrow> 'r \<Rightarrow> 'm list \<Rightarrow> error + ('m \<times> 'r)" where
  "choice R r xs =
     (if xs = [] then Inl IndexError
      else (case randbelow R r (length xs) of
              (i, r') \<Rightarrow> Inr (xs ! (i mod length xs), r')))"

section \<open>The evaluation function\<close>

definition piece_values :: "(piece_type \<times> real) list" where
  "piece_values =
     [(PAWN, 1), (KNIGHT, 3.2), (BISHOP, 3.3), (ROOK, 5), (QUEEN, 9), (KING, 100)]"

definition material :: "('x, 'm) board \<Rightarrow> real" where
  "material b =
     foldl (\<lambda>score (piece_type, v).
              score + real (length (pieces b piece_type WHITE)) * v
                    - real (length (pieces b piece_type BLACK)) * v)
       0 piece_values"

text \<open>
  Lines 28 to 32 of the source: the mobility term and the board it leaves behind. White's
  count is taken only when White is to move; then the side to move is set to Black, Black's
  moves are counted, and the side to move is set to the negation of what it then is.
\<close>

definition mobility :: "('x, 'm, 'r) rules \<Rightarrow> ('x, 'm) board \<Rightarrow> real \<times> ('x, 'm) board" where
  "mobility R b =
     (let white_mobility = (if turn (pos b) = WHITE then length (legal_moves R b) else 0);
          b1 = set_turn BLACK b;
          black_mobility = length (legal_moves R b1);
          b2 = set_turn (\<not> turn (pos b1)) b1
      in (0.1 * real_of_int (int white_mobility - int black_mobility), b2))"

definition center_squares :: "square list" where
  "center_squares = [27, 35, 28, 36]"

definition center_control :: "('x, 'm) board \<Rightarrow> real" where
  "center_control b =
     foldl (\<lambda>score sq.
              (case piece_at b sq of
                 None \<Rightarrow> score
               | Some piece \<Rightarrow> if snd piece = WHITE then score + 0.3 else score - 0.3))
       0 center_squares"

definition evaluate :: "('x, 'm, 'r) rules \<Rightarrow> ('x, 'm) board \<Rightarrow> real \<times> ('x, 'm) board" where
  "evaluate R b =
     (let score = material b in
      case mobility R b of
        (mob, b') \<Rightarrow>
          let score = score + mob;
              score = score + center_control b';
              score = (if is_check R b' then score + 0.5 else score)
          in (score, b'))"

section \<open>Minimax with alpha-beta pruning\<close>

type_synonym ('x, 'm, 'r) state = "('x, 'm) board \<times> 'r"

type_synonym 'm result = "score \<times> 'm option"

text \<open>
  The end of both branches of \<open>minimax\<close>: the fallback to \<open>random.choice\<close> when no
  move was recorded, and the returned pair.
\<close>

fun finish ::
  "('x, 'm, 'r) rules \<Rightarrow> 'm list \<Rightarrow> score \<Rightarrow> 'm option \<Rightarrow> ('x, 'm, 'r) state
     \<Rightarrow> error + ('m result \<times> ('x, 'm, 'r) state)" where
  "finish R legal best_eval None (b, r) =
     (case choice R r legal of
        Inl e \<Rightarrow> Inl e
      | Inr (m, r') \<Rightarrow> Inr ((best_eval, Some m), (b, r')))"
| "finish R legal best_eval (Some m) (b, r) = Inr ((best_eval, Some m), (b, r))"

text \<open>
  \<open>minimax\<close> follows the source line by line. The two \<open>for\<close> loops are \<open>max_loop\<close>
  and \<open>min_loop\<close>: they take the depth of the recursive calls (the source's
  \<open>depth - 1\<close>), the whole list of legal moves (for the fallback), the moves still to
  examine, the window, the running best score and the running best move. A \<open>break\<close>
  leaves the loop for \<open>finish\<close>.
\<close>

function
  minimax ::
    "('x, 'm, 'r) rules \<Rightarrow> nat \<Rightarrow> score \<Rightarrow> score \<Rightarrow> bool \<Rightarrow> ('x, 'm, 'r) state
       \<Rightarrow> error + ('m result \<times> ('x, 'm, 'r) state)"
  and max_loop ::
    "('x, 'm, 'r) rules \<Rightarrow> nat \<Rightarrow> 'm list \<Rightarrow> 'm list \<Rightarrow> score \<Rightarrow> score \<Rightarrow> score
       \<Rightarrow> 'm option \<Rightarrow> ('x, 'm, 'r) state \<Rightarrow> error + ('m result \<times> ('x, 'm, 'r) state)"
  and min_loop ::
    "('x, 'm, 'r) rules \<Rightarrow> nat \<Rightarrow> 'm list \<Rightarrow> 'm list \<Rightarrow> score \<Rightarrow> score \<Rightarrow> score
       \<Rightarrow> 'm option \<Rightarrow> ('x, 'm, 'r) state \<Rightarrow> error + ('m result \<times> ('x, 'm, 'r) state)"
where
  "minimax R depth alpha beta maximizing (b, r) =
     (if is_game_over R b then
        (if is_checkmate R b then
           Inr ((Fin (if turn (pos b) = WHITE then - 9999 else 9999), None), (b, r))
         else if is_stalemate R b then Inr ((Fin (- 200), None), (b, r))
         else Inr ((Fin 0, None), (b, r)))
      else if depth = 0 then
        (case evaluate R b of (v, b') \<Rightarrow> Inr ((Fin v, None), (b', r)))
      else if legal_moves R b = [] then
        (case evaluate R b of (v, b') \<Rightarrow> Inr ((Fin v, None), (b', r)))
      else if maximizing then
        max_loop R (depth - 1) (legal_moves R b) (legal_moves R b) alpha beta NegInf None (b, r)
      else
        min_loop R (depth - 1) (legal_moves R b) (legal_moves R b) alpha beta PosInf None (b, r))"
| "max_loop R d legal [] alpha beta max_eval best_move (b, r) =
     finish R legal max_eval best_move (b, r)"
| "max_loop R d legal (move # rest) alpha beta max_eval best_move (b, r) =
     (case minimax R d alpha beta False (push R move b, r) of
        Inl e \<Rightarrow> Inl e
      | Inr ((eval_score, _), (b1, r1)) \<Rightarrow>
          (case pop b1 of
             Inl e \<Rightarrow> Inl e
           | Inr b2 \<Rightarrow>
               (let max_eval' = (if eval_score > max_eval then eval_score else max_eval);
                    best_move' = (if eval_score > max_eval then Some move else best_move);
                    alpha' = max alpha eval_score
                in if beta \<le> alpha' then finish R legal max_eval' best_move' (b2, r1)
                   else max_loop R d legal rest alpha' beta max_eval' best_move' (b2, r1))))"
| "min_loop R d legal [] alpha beta min_eval best_move (b, r) =
     finish R legal min_eval best_move (b, r)"
| "min_loop R d legal (move # rest) alpha beta min_eval best_move (b, r) =
     (case minimax R d alpha beta True (push R move b, r) of
        Inl e \<Rightarrow> Inl e
      | Inr ((eval_score, _), (b1, r1)) \<Rightarrow>
          (case pop b1 of
             Inl e \<Rightarrow> Inl e
           | Inr b2 \<Rightarrow>
               (let min_eval' = (if eval_score < min_eval then eval_score else min_eval);
                    best_move' = (if eval_score < min_eval then Some move else best_move);
                    beta' = min beta eval_score
                in if beta' \<le> alpha then finish R legal min_eval' best_move' (b2, r1)
                   else min_loop R d legal rest alpha beta' min_eval' best_move' (b2, r1))))"
  by pat_completeness auto
termination
  by (relation "inv_image (less_than <*lex*> less_than)
        (\<lambda>x. case x of
           Inl (R, depth, alpha, beta, maximizing, s) \<Rightarrow> (depth, 0)
         | Inr (Inl (R, d, legal, ms, rest)) \<Rightarrow> (d, Suc (length ms))
         | Inr (Inr (R, d, legal, ms, rest)) \<Rightarrow> (d, Suc (length ms)))") auto


section \<open>The search with pruning disabled\<close>

text \<open>
  The full-width search the specification compares \<open>minimax\<close> with: "the same search
  with pruning disabled". It is \<open>minimax\<close> with the two tests \<open>if beta <= alpha: break\<close>
  removed, so every loop examines every legal move; nothing else differs.
\<close>

function
  minimax_full ::
    "('x, 'm, 'r) rules \<Rightarrow> nat \<Rightarrow> score \<Rightarrow> score \<Rightarrow> bool \<Rightarrow> ('x, 'm, 'r) state
       \<Rightarrow> error + ('m result \<times> ('x, 'm, 'r) state)"
  and max_loop_full ::
    "('x, 'm, 'r) rules \<Rightarrow> nat \<Rightarrow> 'm list \<Rightarrow> 'm list \<Rightarrow> score \<Rightarrow> score \<Rightarrow> score
       \<Rightarrow> 'm option \<Rightarrow> ('x, 'm, 'r) state \<Rightarrow> error + ('m result \<times> ('x, 'm, 'r) state)"
  and min_loop_full ::
    "('x, 'm, 'r) rules \<Rightarrow> nat \<Rightarrow> 'm list \<Rightarrow> 'm list \<Rightarrow> score \<Rightarrow> score \<Rightarrow> score
       \<Rightarrow> 'm option \<Rightarrow> ('x, 'm, 'r) state \<Rightarrow> error + ('m result \<times> ('x, 'm, 'r) state)"
where
  "minimax_full R depth alpha beta maximizing (b, r) =
     (if is_game_over R b then
        (if is_checkmate R b then
           Inr ((Fin (if turn (pos b) = WHITE then - 9999 else 9999), None), (b, r))
         else if is_stalemate R b then Inr ((Fin (- 200), None), (b, r))
         else Inr ((Fin 0, None), (b, r)))
      else if depth = 0 then
        (case evaluate R b of (v, b') \<Rightarrow> Inr ((Fin v, None), (b', r)))
      else if legal_moves R b = [] then
        (case evaluate R b of (v, b') \<Rightarrow> Inr ((Fin v, None), (b', r)))
      else if maximizing then
        max_loop_full R (depth - 1) (legal_moves R b) (legal_moves R b)
          alpha beta NegInf None (b, r)
      else
        min_loop_full R (depth - 1) (legal_moves R b) (legal_moves R b)
          alpha beta PosInf None (b, r))"
| "max_loop_full R d legal [] alpha beta max_eval best_move (b, r) =
     finish R legal max_eval best_move (b, r)"
| "max_loop_full R d legal (move # rest) alpha beta max_eval best_move (b, r) =
     (case minimax_full R d alpha beta False (push R move b, r) of
        Inl e \<Rightarrow> Inl e
      | Inr ((eval_score, _), (b1, r1)) \<Rightarrow>
          (case pop b1 of
             Inl e \<Rightarrow> Inl e
           | Inr b2 \<Rightarrow>
               (let max_eval' = (if eval_score > max_eval then eval_score else max_eval);
                    best_move' = (if eval_score > max_eval then Some move else best_move);
                    alpha' = max alpha eval_score
                in max_loop_full R d legal rest alpha' beta max_eval' best_move' (b2, r1))))"
| "min_loop_full R d legal [] alpha beta min_eval best_move (b, r) =
     finish R legal min_eval best_move (b, r)"
| "min_loop_full R d legal (move # rest) alpha beta min_eval best_move (b, r) =
     (case minimax_full R d alpha beta True (push R move b, r) of
        Inl e \<Rightarrow> Inl e
      | Inr ((eval_score, _), (b1, r1)) \<Rightarrow>
          (case pop b1 of
             Inl e \<Rightarrow> Inl e
           | Inr b2 \<Rightarrow>
               (let min_eval' = (if eval_score < min_eval then eval_score else min_eval);
                    best_move' = (if eval_score < min_eval then Some move else best_move);
                    beta' = min beta eval_score
                in min_loop_full R d legal rest alpha beta' min_eval' best_move' (b2, r1))))"
  by pat_completeness auto
termination
  by (relation "inv_image (less_than <*lex*> less_than)
        (\<lambda>x. case x of
           Inl (R, depth, alpha, beta, maximizing, s) \<Rightarrow> (depth, 0)
         | Inr (Inl (R, d, legal, ms, rest)) \<Rightarrow> (d, Suc (length ms))
         | Inr (Inr (R, d, legal, ms, rest)) \<Rightarrow> (d, Suc (length ms)))") auto

section \<open>The scores and the board of a search, as values\<close>

text \<open>
  The score a search returns, and the board it leaves, written without the state: the
  proofs below show that \<open>minimax\<close> returns \<open>ab\<close> and leaves \<open>after_search\<close>,
  and that the score of \<open>minimax_full\<close> is \<open>fw_score\<close>.
\<close>

definition terminal_score :: "('x, 'm, 'r) rules \<Rightarrow> ('x, 'm) board \<Rightarrow> score" where
  "terminal_score R b =
     (if is_checkmate R b then Fin (if turn (pos b) = WHITE then - 9999 else 9999)
      else if is_stalemate R b then Fin (- 200)
      else Fin 0)"

definition after_search :: "('x, 'm, 'r) rules \<Rightarrow> nat \<Rightarrow> ('x, 'm) board \<Rightarrow> ('x, 'm) board" where
  "after_search R depth b =
     (if is_game_over R b then b
      else if depth = 0 \<or> legal_moves R b = [] then snd (evaluate R b)
      else b)"

function
  ab :: "('x, 'm, 'r) rules \<Rightarrow> nat \<Rightarrow> score \<Rightarrow> score \<Rightarrow> bool \<Rightarrow> ('x, 'm) board \<Rightarrow> 'm result"
  and ab_max :: "('x, 'm, 'r) rules \<Rightarrow> nat \<Rightarrow> 'm list \<Rightarrow> score \<Rightarrow> score \<Rightarrow> score
       \<Rightarrow> 'm option \<Rightarrow> ('x, 'm) board \<Rightarrow> 'm result"
  and ab_min :: "('x, 'm, 'r) rules \<Rightarrow> nat \<Rightarrow> 'm list \<Rightarrow> score \<Rightarrow> score \<Rightarrow> score
       \<Rightarrow> 'm option \<Rightarrow> ('x, 'm) board \<Rightarrow> 'm result"
where
  "ab R depth alpha beta maximizing b =
     (if is_game_over R b then (terminal_score R b, None)
      else if depth = 0 then (Fin (fst (evaluate R b)), None)
      else if legal_moves R b = [] then (Fin (fst (evaluate R b)), None)
      else if maximizing then ab_max R (depth - 1) (legal_moves R b) alpha beta NegInf None b
      else ab_min R (depth - 1) (legal_moves R b) alpha beta PosInf None b)"
| "ab_max R d [] alpha beta max_eval best_move b = (max_eval, best_move)"
| "ab_max R d (move # rest) alpha beta max_eval best_move b =
     (let eval_score = fst (ab R d alpha beta False (push R move b));
          max_eval' = (if eval_score > max_eval then eval_score else max_eval);
          best_move' = (if eval_score > max_eval then Some move else best_move);
          alpha' = max alpha eval_score
      in if beta \<le> alpha' then (max_eval', best_move')
         else ab_max R d rest alpha' beta max_eval' best_move' b)"
| "ab_min R d [] alpha beta min_eval best_move b = (min_eval, best_move)"
| "ab_min R d (move # rest) alpha beta min_eval best_move b =
     (let eval_score = fst (ab R d alpha beta True (push R move b));
          min_eval' = (if eval_score < min_eval then eval_score else min_eval);
          best_move' = (if eval_score < min_eval then Some move else best_move);
          beta' = min beta eval_score
      in if beta' \<le> alpha then (min_eval', best_move')
         else ab_min R d rest alpha beta' min_eval' best_move' b)"
  by pat_completeness auto
termination
  by (relation "inv_image (less_than <*lex*> less_than)
        (\<lambda>x. case x of
           Inl (R, depth, rest) \<Rightarrow> (depth, 0)
         | Inr (Inl (R, d, ms, rest)) \<Rightarrow> (d, Suc (length ms))
         | Inr (Inr (R, d, ms, rest)) \<Rightarrow> (d, Suc (length ms)))") auto

function
  fw_score :: "('x, 'm, 'r) rules \<Rightarrow> nat \<Rightarrow> bool \<Rightarrow> ('x, 'm) board \<Rightarrow> score"
  and fw_max :: "('x, 'm, 'r) rules \<Rightarrow> nat \<Rightarrow> 'm list \<Rightarrow> score \<Rightarrow> ('x, 'm) board \<Rightarrow> score"
  and fw_min :: "('x, 'm, 'r) rules \<Rightarrow> nat \<Rightarrow> 'm list \<Rightarrow> score \<Rightarrow> ('x, 'm) board \<Rightarrow> score"
where
  "fw_score R depth maximizing b =
     (if is_game_over R b then terminal_score R b
      else if depth = 0 then Fin (fst (evaluate R b))
      else if legal_moves R b = [] then Fin (fst (evaluate R b))
      else if maximizing then fw_max R (depth - 1) (legal_moves R b) NegInf b
      else fw_min R (depth - 1) (legal_moves R b) PosInf b)"
| "fw_max R d [] max_eval b = max_eval"
| "fw_max R d (move # rest) max_eval b =
     fw_max R d rest (max max_eval (fw_score R d False (push R move b))) b"
| "fw_min R d [] min_eval b = min_eval"
| "fw_min R d (move # rest) min_eval b =
     fw_min R d rest (min min_eval (fw_score R d True (push R move b))) b"
  by pat_completeness auto
termination
  by (relation "inv_image (less_than <*lex*> less_than)
        (\<lambda>x. case x of
           Inl (R, depth, rest) \<Rightarrow> (depth, 0)
         | Inr (Inl (R, d, ms, rest)) \<Rightarrow> (d, Suc (length ms))
         | Inr (Inr (R, d, ms, rest)) \<Rightarrow> (d, Suc (length ms)))") auto

text \<open>
  The scores the loops of \<open>minimax\<close> obtain, in the order of the moves examined: one
  \<open>eval_score\<close> for each iteration the loop runs, up to the \<open>break\<close>.
\<close>

fun examined_max ::
  "('x, 'm, 'r) rules \<Rightarrow> nat \<Rightarrow> 'm list \<Rightarrow> score \<Rightarrow> score \<Rightarrow> ('x, 'm, 'r) state \<Rightarrow> score list" where
  "examined_max R d [] alpha beta (b, r) = []"
| "examined_max R d (move # rest) alpha beta (b, r) =
     (case minimax R d alpha beta False (push R move b, r) of
        Inl e \<Rightarrow> []
      | Inr ((eval_score, _), (b1, r1)) \<Rightarrow>
          (case pop b1 of
             Inl e \<Rightarrow> [eval_score]
           | Inr b2 \<Rightarrow>
               eval_score #
                 (if beta \<le> max alpha eval_score then []
                  else examined_max R d rest (max alpha eval_score) beta (b2, r1))))"

fun examined_min ::
  "('x, 'm, 'r) rules \<Rightarrow> nat \<Rightarrow> 'm list \<Rightarrow> score \<Rightarrow> score \<Rightarrow> ('x, 'm, 'r) state \<Rightarrow> score list" where
  "examined_min R d [] alpha beta (b, r) = []"
| "examined_min R d (move # rest) alpha beta (b, r) =
     (case minimax R d alpha beta True (push R move b, r) of
        Inl e \<Rightarrow> []
      | Inr ((eval_score, _), (b1, r1)) \<Rightarrow>
          (case pop b1 of
             Inl e \<Rightarrow> [eval_score]
           | Inr b2 \<Rightarrow>
               eval_score #
                 (if min beta eval_score \<le> alpha then []
                  else examined_min R d rest alpha (min beta eval_score) (b2, r1))))"


text \<open>The scores examined by the loop of an internal node, for either flag.\<close>

definition examined ::
  "('x, 'm, 'r) rules \<Rightarrow> nat \<Rightarrow> score \<Rightarrow> score \<Rightarrow> bool \<Rightarrow> ('x, 'm, 'r) state \<Rightarrow> score list" where
  "examined R depth alpha beta maximizing s =
     (if maximizing then examined_max R (depth - 1) (legal_moves R (fst s)) alpha beta s
      else examined_min R (depth - 1) (legal_moves R (fst s)) alpha beta s)"

definition finite_score :: "score \<Rightarrow> bool" where
  "finite_score s = (case s of Fin x \<Rightarrow> True | _ \<Rightarrow> False)"

text \<open>
  What a search with window \<open>(a, b)\<close> promises about its result \<open>r\<close> when the
  full-width score is \<open>v\<close>: at or below \<open>a\<close> it is an upper bound of \<open>v\<close>, at or
  above \<open>b\<close> a lower bound, and strictly inside the window it is \<open>v\<close>.
\<close>

definition in_window :: "score \<Rightarrow> score \<Rightarrow> score \<Rightarrow> score \<Rightarrow> bool" where
  "in_window a b v r = ((r \<le> a \<longrightarrow> v \<le> r) \<and> (b \<le> r \<longrightarrow> r \<le> v) \<and> (a < r \<and> r < b \<longrightarrow> r = v))"

text \<open>
  The result of a loop against the scores it examined: either nothing examined beats the running
  best, which is then returned with the running best move, or the result is the earliest
  examined score that no other examined score beats, with its move.
\<close>

definition best_max :: "score list \<Rightarrow> 'm list \<Rightarrow> score \<Rightarrow> 'm option \<Rightarrow> 'm result \<Rightarrow> bool" where
  "best_max es ms m0 bm res =
     (length es \<le> length ms \<and>
      (if \<forall>j<length es. es ! j \<le> m0 then res = (m0, bm)
       else \<exists>i<length es. res = (es ! i, Some (ms ! i)) \<and> m0 < es ! i
              \<and> (\<forall>j<i. es ! j < es ! i) \<and> (\<forall>j<length es. es ! j \<le> es ! i)))"

definition best_min :: "score list \<Rightarrow> 'm list \<Rightarrow> score \<Rightarrow> 'm option \<Rightarrow> 'm result \<Rightarrow> bool" where
  "best_min es ms m0 bm res =
     (length es \<le> length ms \<and>
      (if \<forall>j<length es. m0 \<le> es ! j then res = (m0, bm)
       else \<exists>i<length es. res = (es ! i, Some (ms ! i)) \<and> es ! i < m0
              \<and> (\<forall>j<i. es ! i < es ! j) \<and> (\<forall>j<length es. es ! i \<le> es ! j)))"

section \<open>A small instance of the rules\<close>

text \<open>
  An instance of the parameters on which the definitions can be evaluated: a position is
  numbered by \<open>extra\<close>, White has three moves and Black two, a move leads to a position
  with a new number, odd positions are check, and the positions numbered 100, 101 and 102
  are over (checkmate, stalemate, another draw). The board holds the two kings on e1 and
  e8 and a white pawn on e4.
\<close>

definition tiny_rules :: "(nat, nat, nat) rules" where
  "tiny_rules =
     \<lparr>legal_moves = (\<lambda>b. if 100 \<le> extra (pos b) then []
                         else if turn (pos b) = WHITE then [0, 1, 2] else [0, 1]),
      make_move = (\<lambda>m b. (pos b)\<lparr>turn := \<not> turn (pos b), extra := 3 * extra (pos b) + m + 1\<rparr>),
      is_check = (\<lambda>b. odd (extra (pos b))),
      is_game_over = (\<lambda>b. 100 \<le> extra (pos b)),
      is_checkmate = (\<lambda>b. extra (pos b) = 100),
      is_stalemate = (\<lambda>b. extra (pos b) = 101),
      randbelow = (\<lambda>r n. (r mod n, Suc r))\<rparr>"

definition tiny_board :: "color \<Rightarrow> nat \<Rightarrow> (nat, nat) board" where
  "tiny_board c n =
     \<lparr>pos = \<lparr>piece_map = [4 \<mapsto> (KING, WHITE), 60 \<mapsto> (KING, BLACK), 28 \<mapsto> (PAWN, WHITE)],
             turn = c, extra = n\<rparr>,
      move_stack = [], stack = []\<rparr>"

section \<open>Basic facts\<close>

declare minimax.simps [simp del] minimax_full.simps [simp del]
  ab.simps [simp del] fw_score.simps [simp del]

lemma score_less_simps [simp]:
  "NegInf < Fin x" "Fin x < PosInf" "NegInf < PosInf"
  "(Fin x < Fin y) = (x < y)"
  "\<not> s < NegInf" "\<not> PosInf < s"
  by (cases s; auto simp: less_score_def)+

lemma score_le_simps [simp]:
  "s \<le> PosInf" "(PosInf \<le> s) = (s = PosInf)" "(s \<le> NegInf) = (s = NegInf)"
  by (cases s; simp)+

text \<open>
  Whatever the side to move was, \<open>evaluate\<close> leaves White to move: line 29 sets the
  side to move to Black and line 31 negates that.
\<close>

lemma snd_mobility: "snd (mobility R b) = set_turn WHITE b"
  by (simp add: mobility_def Let_def set_turn_def)

lemma snd_evaluate: "snd (evaluate R b) = set_turn WHITE b"
  using snd_mobility [of R b]
  by (cases "mobility R b") (simp add: evaluate_def Let_def)

text \<open>
  \<open>pop\<close> after \<open>push\<close> gives the board back, also when the side to move of the pushed
  board was assigned in between.
\<close>

lemma pop_push: "pop (push R m b) = Inr b"
  by (simp add: pop_def push_def)

lemma pop_set_turn_push: "pop (set_turn c (push R m b)) = Inr b"
  by (simp add: pop_def push_def set_turn_def)

lemma pop_after_search: "pop (after_search R d (push R m b)) = Inr b"
  by (simp add: after_search_def snd_evaluate pop_push pop_set_turn_push)

lemma finite_score_simps [simp]:
  "finite_score (Fin x)" "\<not> finite_score NegInf" "\<not> finite_score PosInf"
  by (simp_all add: finite_score_def)

lemma finite_score_max: "finite_score e \<Longrightarrow> m \<noteq> PosInf \<Longrightarrow> finite_score (max m e)"
  by (cases e; cases m) (simp_all add: max_def)

lemma finite_score_min: "finite_score e \<Longrightarrow> m \<noteq> NegInf \<Longrightarrow> finite_score (min m e)"
  by (cases e; cases m) (simp_all add: min_def)

lemma finite_terminal: "finite_score (terminal_score R b)"
  by (simp add: terminal_score_def)

lemma strict_max: "(if m < e then e else m) = max m (e::score)"
  by (auto simp: max_def)

lemma strict_min: "(if e < m then e else m) = min m (e::score)"
  by (auto simp: min_def)

section \<open>What minimax returns\<close>

text \<open>Every score of the search is finite.\<close>

lemma ab_finite:
  "finite_score (fst (ab R depth alpha beta maximizing b))"
  "max_eval \<noteq> PosInf \<Longrightarrow> rest \<noteq> [] \<or> max_eval \<noteq> NegInf \<Longrightarrow>
     finite_score (fst (ab_max R d rest alpha beta max_eval best_move b))"
  "min_eval \<noteq> NegInf \<Longrightarrow> rest \<noteq> [] \<or> min_eval \<noteq> PosInf \<Longrightarrow>
     finite_score (fst (ab_min R d rest alpha beta min_eval best_move b))"
proof (induction R depth alpha beta maximizing b
    and R d rest alpha beta max_eval best_move b
    and R d rest alpha beta min_eval best_move b rule: ab_ab_max_ab_min.induct)
  case (1 R depth alpha beta maximizing b)
  then show ?case by (simp add: finite_terminal ab.simps)
next
  case (2 R d alpha beta max_eval best_move b)
  then show ?case by (cases max_eval) simp_all
next
  case (3 R d move rest alpha beta max_eval best_move b)
  let ?e = "fst (ab R d alpha beta False (push R move b))"
  have fe: "finite_score ?e" by (rule "3.IH"(1))
  have fm: "finite_score (max max_eval ?e)" using fe "3.prems"(1) by (rule finite_score_max)
  show ?case
  proof (cases "beta \<le> max alpha ?e")
    case True
    then show ?thesis using fm by (simp add: Let_def strict_max)
  next
    case False
    have p1: "max max_eval ?e \<noteq> PosInf" using fm by auto
    have p2: "rest \<noteq> [] \<or> max max_eval ?e \<noteq> NegInf" using fm by auto
    have "finite_score (fst (ab_max R d rest (max alpha ?e) beta (max max_eval ?e)
            (if max_eval < ?e then Some move else best_move) b))"
      by (rule "3.IH"(2) [OF refl strict_max [symmetric] refl refl False p1 p2])
    then show ?thesis using False by (simp add: Let_def strict_max)
  qed
next
  case (4 R d alpha beta min_eval best_move b)
  then show ?case by (cases min_eval) simp_all
next
  case (5 R d move rest alpha beta min_eval best_move b)
  let ?e = "fst (ab R d alpha beta True (push R move b))"
  have fe: "finite_score ?e" by (rule "5.IH"(1))
  have fm: "finite_score (min min_eval ?e)" using fe "5.prems"(1) by (rule finite_score_min)
  show ?case
  proof (cases "min beta ?e \<le> alpha")
    case True
    then show ?thesis using fm by (simp add: Let_def strict_min)
  next
    case False
    have p1: "min min_eval ?e \<noteq> NegInf" using fm by auto
    have p2: "rest \<noteq> [] \<or> min min_eval ?e \<noteq> PosInf" using fm by auto
    have "finite_score (fst (ab_min R d rest alpha (min beta ?e) (min min_eval ?e)
            (if ?e < min_eval then Some move else best_move) b))"
      by (rule "5.IH"(2) [OF refl strict_min [symmetric] refl refl False p1 p2])
    then show ?thesis using False by (simp add: Let_def strict_min)
  qed
qed

lemma finish_Some: "best \<noteq> None \<Longrightarrow> finish R legal ev best s = Inr ((ev, best), s)"
  by (cases s; cases best) simp_all

lemma better_max_move:
  "finite_score e \<Longrightarrow> max_eval = NegInf \<or> best_move \<noteq> None \<Longrightarrow>
     (if max_eval < e then Some move else best_move) \<noteq> None"
  by (cases e) (auto simp: not_less)

lemma better_min_move:
  "finite_score e \<Longrightarrow> min_eval = PosInf \<or> best_move \<noteq> None \<Longrightarrow>
     (if e < min_eval then Some move else best_move) \<noteq> None"
  by (cases e) (auto simp: not_less)

text \<open>
  \<open>minimax\<close> never fails: it returns \<open>ab\<close> of the board, leaves \<open>after_search\<close>
  and does not touch the generator. For the loops this holds once the running best
  score is finite or no move was recorded yet.
\<close>

lemma minimax_char:
  "minimax R depth alpha beta maximizing s =
      Inr (ab R depth alpha beta maximizing (fst s), (after_search R depth (fst s), snd s))"
  "max_eval \<noteq> PosInf \<Longrightarrow> max_eval = NegInf \<or> best_move \<noteq> None \<Longrightarrow>
   rest \<noteq> [] \<or> best_move \<noteq> None \<Longrightarrow>
     max_loop R d legal rest alpha beta max_eval best_move s =
       Inr (ab_max R d rest alpha beta max_eval best_move (fst s), s)"
  "min_eval \<noteq> NegInf \<Longrightarrow> min_eval = PosInf \<or> best_move \<noteq> None \<Longrightarrow>
   rest \<noteq> [] \<or> best_move \<noteq> None \<Longrightarrow>
     min_loop R d legal rest alpha beta min_eval best_move s =
       Inr (ab_min R d rest alpha beta min_eval best_move (fst s), s)"
proof (induction R depth alpha beta maximizing s
    and R d legal rest alpha beta max_eval best_move s
    and R d legal rest alpha beta min_eval best_move s
    rule: minimax_max_loop_min_loop.induct)
  case (1 R depth alpha beta maximizing b r)
  show ?case
  proof (cases "is_game_over R b \<or> depth = 0 \<or> legal_moves R b = []")
    case True
    then show ?thesis
      by (cases "evaluate R b")
        (auto simp: terminal_score_def after_search_def minimax.simps ab.simps)
  next
    case False
    then have nt: "\<not> is_game_over R b" "depth \<noteq> 0" "legal_moves R b \<noteq> []" by auto
    show ?thesis
    proof (cases maximizing)
      case True
      from "1.IH"(1) [OF nt True] nt(3) show ?thesis
        using nt True by (simp add: after_search_def minimax.simps ab.simps)
    next
      case False
      from "1.IH"(2) [OF nt False] nt(3) show ?thesis
        using nt False by (simp add: after_search_def minimax.simps ab.simps)
    qed
  qed
next
  case (2 R d legal alpha beta max_eval best_move b r)
  then show ?case by (simp add: finish_Some)
next
  case (3 R d legal move rest alpha beta max_eval best_move b r)
  let ?e = "fst (ab R d alpha beta False (push R move b))"
  let ?bm = "if max_eval < ?e then Some move else best_move"
  have call: "minimax R d alpha beta False (push R move b, r) =
       Inr ((?e, snd (ab R d alpha beta False (push R move b))),
            (after_search R d (push R move b), r))"
    using "3.IH"(1) by simp
  have fe: "finite_score ?e" by (rule ab_finite(1))
  have fm: "finite_score (max max_eval ?e)" using fe "3.prems"(1) by (rule finite_score_max)
  have bm: "?bm \<noteq> None" using fe "3.prems"(2) by (rule better_max_move)
  show ?case
  proof (cases "beta \<le> max alpha ?e")
    case True
    then show ?thesis
      using bm by (simp add: call pop_after_search Let_def finish_Some case_prod_beta)
  next
    case False
    have p1: "max max_eval ?e \<noteq> PosInf" using fm by auto
    have p2: "max max_eval ?e = NegInf \<or> ?bm \<noteq> None" using bm by blast
    have p3: "rest \<noteq> [] \<or> ?bm \<noteq> None" using bm by blast
    have "max_loop R d legal rest (max alpha ?e) beta (max max_eval ?e) ?bm (b, r) =
       Inr (ab_max R d rest (max alpha ?e) beta (max max_eval ?e) ?bm (fst (b, r)), (b, r))"
      by (rule "3.IH"(2) [OF call refl refl refl pop_after_search strict_max [symmetric]
            refl refl False p1 p2 p3])
    then show ?thesis
      using False
      by (cases "max_eval < ?e")
        (simp_all add: call pop_after_search Let_def strict_max [symmetric] case_prod_beta)
  qed
next
  case (4 R d legal alpha beta min_eval best_move b r)
  then show ?case by (simp add: finish_Some)
next
  case (5 R d legal move rest alpha beta min_eval best_move b r)
  let ?e = "fst (ab R d alpha beta True (push R move b))"
  let ?bm = "if ?e < min_eval then Some move else best_move"
  have call: "minimax R d alpha beta True (push R move b, r) =
       Inr ((?e, snd (ab R d alpha beta True (push R move b))),
            (after_search R d (push R move b), r))"
    using "5.IH"(1) by simp
  have fe: "finite_score ?e" by (rule ab_finite(1))
  have fm: "finite_score (min min_eval ?e)" using fe "5.prems"(1) by (rule finite_score_min)
  have bm: "?bm \<noteq> None" using fe "5.prems"(2) by (rule better_min_move)
  show ?case
  proof (cases "min beta ?e \<le> alpha")
    case True
    then show ?thesis
      using bm by (simp add: call pop_after_search Let_def finish_Some case_prod_beta)
  next
    case False
    have p1: "min min_eval ?e \<noteq> NegInf" using fm by auto
    have p2: "min min_eval ?e = PosInf \<or> ?bm \<noteq> None" using bm by blast
    have p3: "rest \<noteq> [] \<or> ?bm \<noteq> None" using bm by blast
    have "min_loop R d legal rest alpha (min beta ?e) (min min_eval ?e) ?bm (b, r) =
       Inr (ab_min R d rest alpha (min beta ?e) (min min_eval ?e) ?bm (fst (b, r)), (b, r))"
      by (rule "5.IH"(2) [OF call refl refl refl pop_after_search strict_min [symmetric]
            refl refl False p1 p2 p3])
    then show ?thesis
      using False
      by (cases "?e < min_eval")
        (simp_all add: call pop_after_search Let_def strict_min [symmetric] case_prod_beta)
  qed
qed

section \<open>The instance evaluated\<close>

lemma tiny_set_turn: "set_turn c (tiny_board c' n) = tiny_board c n"
  by (simp add: set_turn_def tiny_board_def)

lemma tiny_not_over: "n < 100 \<Longrightarrow> \<not> is_game_over tiny_rules (tiny_board c n)"
  by (simp add: tiny_rules_def tiny_board_def)

lemma tiny_legal:
  "legal_moves tiny_rules (tiny_board WHITE 0) = [0, 1, 2]"
  "legal_moves tiny_rules (tiny_board BLACK 0) = [0, 1]"
  by (simp_all add: tiny_rules_def tiny_board_def)

lemma tiny_score_white: "fst (evaluate tiny_rules (tiny_board WHITE 0)) = 14 / 10"
  by code_simp

lemma tiny_score_black: "fst (evaluate tiny_rules (tiny_board BLACK 0)) = 11 / 10"
  by code_simp

lemma tiny_evaluate_white: "evaluate tiny_rules (tiny_board WHITE 0) = (14 / 10, tiny_board WHITE 0)"
  using tiny_score_white snd_evaluate [of tiny_rules "tiny_board WHITE 0"]
  by (simp add: prod_eq_iff tiny_set_turn)

lemma tiny_evaluate_black: "evaluate tiny_rules (tiny_board BLACK 0) = (11 / 10, tiny_board WHITE 0)"
  using tiny_score_black snd_evaluate [of tiny_rules "tiny_board BLACK 0"]
  by (simp add: prod_eq_iff tiny_set_turn)

lemma tiny_board_turn: "tiny_board WHITE n \<noteq> tiny_board BLACK n"
  by (simp add: tiny_board_def)

section \<open>Terminal positions and the horizon\<close>

text \<open>
  C5: on a position that the rules report as over and as checkmate, \<open>minimax\<close> returns
  the score -9999 when White is to move and 9999 when Black is to move, with no move,
  whatever the depth, the window and the \<open>maximizing\<close> flag; the board is untouched.
\<close>

theorem minimax_checkmate:
  "is_game_over R b \<Longrightarrow> is_checkmate R b \<Longrightarrow>
     minimax R depth alpha beta maximizing (b, r) =
       Inr ((Fin (if turn (pos b) = WHITE then - 9999 else 9999), None), (b, r))"
  by (simp add: minimax.simps)

theorem minimax_checkmate_witness:
  "is_game_over tiny_rules (tiny_board WHITE 100) \<and> is_checkmate tiny_rules (tiny_board WHITE 100)
   \<and> minimax tiny_rules 3 NegInf PosInf False (tiny_board WHITE 100, 0) =
       Inr ((Fin (- 9999), None), (tiny_board WHITE 100, 0))
   \<and> is_game_over tiny_rules (tiny_board BLACK 100) \<and> is_checkmate tiny_rules (tiny_board BLACK 100)
   \<and> minimax tiny_rules 3 NegInf PosInf False (tiny_board BLACK 100, 0) =
       Inr ((Fin 9999, None), (tiny_board BLACK 100, 0))"
proof -
  have w: "is_game_over tiny_rules (tiny_board WHITE 100)" "is_checkmate tiny_rules (tiny_board WHITE 100)"
    and k: "is_game_over tiny_rules (tiny_board BLACK 100)" "is_checkmate tiny_rules (tiny_board BLACK 100)"
    by (simp_all add: tiny_rules_def tiny_board_def)
  have tw: "turn (pos (tiny_board WHITE 100)) = WHITE" and tk: "turn (pos (tiny_board BLACK 100)) = BLACK"
    by (simp_all add: tiny_board_def)
  show ?thesis
    using w k minimax_checkmate [OF w, of 3 NegInf PosInf False 0]
      minimax_checkmate [OF k, of 3 NegInf PosInf False 0] tw tk
    by simp
qed

text \<open>
  C6: on a position that the rules report as over and not as checkmate, \<open>minimax\<close>
  returns the score -200 when the rules report stalemate and 0 otherwise, with no move,
  whatever the depth, the window, the \<open>maximizing\<close> flag and the side to move.
\<close>

theorem minimax_stalemate_draw:
  "is_game_over R b \<Longrightarrow> \<not> is_checkmate R b \<Longrightarrow>
     minimax R depth alpha beta maximizing (b, r) =
       Inr ((Fin (if is_stalemate R b then - 200 else 0), None), (b, r))"
  by (simp add: minimax.simps)

theorem minimax_stalemate_draw_witness:
  "is_game_over tiny_rules (tiny_board BLACK 101) \<and> \<not> is_checkmate tiny_rules (tiny_board BLACK 101)
   \<and> is_stalemate tiny_rules (tiny_board BLACK 101)
   \<and> minimax tiny_rules 3 NegInf PosInf True (tiny_board BLACK 101, 0) =
       Inr ((Fin (- 200), None), (tiny_board BLACK 101, 0))
   \<and> is_game_over tiny_rules (tiny_board WHITE 102) \<and> \<not> is_checkmate tiny_rules (tiny_board WHITE 102)
   \<and> \<not> is_stalemate tiny_rules (tiny_board WHITE 102)
   \<and> minimax tiny_rules 3 NegInf PosInf True (tiny_board WHITE 102, 0) =
       Inr ((Fin 0, None), (tiny_board WHITE 102, 0))"
proof -
  have s: "is_game_over tiny_rules (tiny_board BLACK 101)" "\<not> is_checkmate tiny_rules (tiny_board BLACK 101)"
    and d: "is_game_over tiny_rules (tiny_board WHITE 102)" "\<not> is_checkmate tiny_rules (tiny_board WHITE 102)"
    and st: "is_stalemate tiny_rules (tiny_board BLACK 101)" "\<not> is_stalemate tiny_rules (tiny_board WHITE 102)"
    by (simp_all add: tiny_rules_def tiny_board_def)
  show ?thesis
    using s d st minimax_stalemate_draw [OF s, of 3 NegInf PosInf True 0]
      minimax_stalemate_draw [OF d, of 3 NegInf PosInf True 0]
    by simp
qed

text \<open>
  C7: on a position that is not over, \<open>minimax\<close> at depth 0 with the full window returns
  the score of \<open>evaluate\<close> and no move, for either value of \<open>maximizing\<close>; it makes no
  recursive call, and the board it leaves is the one \<open>evaluate\<close> leaves.
\<close>

theorem minimax_depth_0:
  "\<not> is_game_over R b \<Longrightarrow>
     minimax R 0 NegInf PosInf m (b, r) =
       Inr ((Fin (fst (evaluate R b)), None), (snd (evaluate R b), r))"
  by (simp add: minimax.simps case_prod_beta)

theorem minimax_depth_0_witness:
  "\<not> is_game_over tiny_rules (tiny_board WHITE 0)
   \<and> minimax tiny_rules 0 NegInf PosInf True (tiny_board WHITE 0, 0) =
       Inr ((Fin (14 / 10), None), (tiny_board WHITE 0, 0))"
proof -
  have n: "\<not> is_game_over tiny_rules (tiny_board WHITE 0)" by (simp add: tiny_not_over)
  show ?thesis
    using n minimax_depth_0 [OF n, of True 0] by (simp add: tiny_evaluate_white)
qed

section \<open>The side to move after evaluate\<close>

text \<open>
  C3: \<open>evaluate\<close> is to restore the side to move before it returns. On a board with
  Black to move it does not: it returns with White to move.
\<close>

theorem evaluate_black_to_move:
  "turn (pos (tiny_board BLACK 0)) = BLACK
   \<and> evaluate tiny_rules (tiny_board BLACK 0) = (11 / 10, tiny_board WHITE 0)
   \<and> turn (pos (snd (evaluate tiny_rules (tiny_board BLACK 0)))) = WHITE"
  by (simp add: tiny_evaluate_black) (simp add: tiny_board_def)

text \<open>
  C2: after \<open>minimax\<close> returns, the board is to be the board before the call. At depth 0,
  on a position that is not over with Black to move, it is not: the board is left with
  White to move.
\<close>

theorem minimax_black_to_move_depth_0:
  "\<not> is_game_over tiny_rules (tiny_board BLACK 0)
   \<and> minimax tiny_rules 0 NegInf PosInf True (tiny_board BLACK 0, 0) =
       Inr ((Fin (11 / 10), None), (tiny_board WHITE 0, 0))
   \<and> tiny_board WHITE 0 \<noteq> tiny_board BLACK 0"
  by (simp add: minimax.simps tiny_not_over tiny_evaluate_black tiny_board_turn)

text \<open>
  Where the board is restored: on a position that is over, and on a position that is not
  over when the depth is positive and there is a legal move. Otherwise the board is left
  as \<open>evaluate\<close> leaves it, which is the board before the call when White is to move.
\<close>

lemma minimax_board:
  "\<exists>res. minimax R depth alpha beta maximizing (b, r) =
     Inr (res, (if is_game_over R b \<or> (0 < depth \<and> legal_moves R b \<noteq> []) then b
                else set_turn WHITE b, r))"
  by (auto simp: minimax_char(1) after_search_def snd_evaluate)

section \<open>The mobility term\<close>

text \<open>
  C4, as the claim states it: the mobility term is 0.1 times the number of legal moves
  of White minus the number of legal moves of Black, whichever side is to move. With
  Black to move this fails: White's moves are not counted.
\<close>

theorem mobility_black_to_move_counterexample:
  "turn (pos (tiny_board BLACK 0)) = BLACK
   \<and> fst (mobility tiny_rules (tiny_board BLACK 0)) \<noteq>
       0.1 * (real (length (legal_moves tiny_rules (set_turn WHITE (tiny_board BLACK 0))))
              - real (length (legal_moves tiny_rules (set_turn BLACK (tiny_board BLACK 0)))))"
  by (simp add: mobility_def tiny_set_turn tiny_legal) (simp add: tiny_board_def)

text \<open>
  C4, amended: with White to move the mobility term is 0.1 times the number of legal
  moves of the position minus the number of legal moves of the position with the side to
  move set to Black; with Black to move White's count is taken as 0 and the term is -0.1
  times the number of legal moves of the position. This term is what \<open>evaluate\<close> adds
  to the material, before the center control and the check bonus.
\<close>

theorem evaluate_mobility:
  "fst (mobility R b) =
     (if turn (pos b) = WHITE
      then 0.1 * (real (length (legal_moves R b))
                  - real (length (legal_moves R (set_turn BLACK b))))
      else - 0.1 * real (length (legal_moves R b)))
   \<and> fst (evaluate R b) =
       material b + fst (mobility R b) + center_control (snd (mobility R b))
       + (if is_check R (snd (mobility R b)) then 0.5 else 0)"
proof -
  have "turn (pos b) = BLACK \<Longrightarrow> set_turn BLACK b = b" by (simp add: set_turn_def)
  then have m: "fst (mobility R b) =
     (if turn (pos b) = WHITE
      then 0.1 * (real (length (legal_moves R b))
                  - real (length (legal_moves R (set_turn BLACK b))))
      else - 0.1 * real (length (legal_moves R b)))"
    by (simp add: mobility_def Let_def)
  have "fst (evaluate R b) =
       material b + fst (mobility R b) + center_control (snd (mobility R b))
       + (if is_check R (snd (mobility R b)) then 0.5 else 0)"
    by (cases "mobility R b") (simp add: evaluate_def Let_def)
  with m show ?thesis by blast
qed

section \<open>The move of an internal node\<close>

lemma ab_max_move:
  "max_eval \<noteq> PosInf \<Longrightarrow> max_eval = NegInf \<or> best_move \<noteq> None \<Longrightarrow>
   rest \<noteq> [] \<or> best_move \<noteq> None \<Longrightarrow>
     \<exists>m. snd (ab_max R d rest alpha beta max_eval best_move b) = Some m
        \<and> (m \<in> set rest \<or> best_move = Some m)"
proof (induction rest arbitrary: alpha max_eval best_move)
  case Nil
  then show ?case by auto
next
  case (Cons move rest)
  let ?e = "fst (ab R d alpha beta False (push R move b))"
  let ?bm = "if max_eval < ?e then Some move else best_move"
  have fe: "finite_score ?e" by (rule ab_finite(1))
  have fm: "finite_score (max max_eval ?e)" using fe Cons.prems(1) by (rule finite_score_max)
  have bm: "?bm \<noteq> None" using fe Cons.prems(2) by (rule better_max_move)
  show ?case
  proof (cases "beta \<le> max alpha ?e")
    case True
    then show ?thesis using bm by (auto simp: Let_def)
  next
    case False
    have p1: "max max_eval ?e \<noteq> PosInf" using fm by auto
    have p2: "max max_eval ?e = NegInf \<or> ?bm \<noteq> None" using bm by blast
    have p3: "rest \<noteq> [] \<or> ?bm \<noteq> None" using bm by blast
    from Cons.IH [OF p1 p2 p3, of "max alpha ?e"] obtain m where
      m: "snd (ab_max R d rest (max alpha ?e) beta (max max_eval ?e) ?bm b) = Some m"
        "m \<in> set rest \<or> ?bm = Some m" by blast
    have "m \<in> set (move # rest) \<or> best_move = Some m"
      using m(2) by (auto split: if_splits)
    then show ?thesis
      using False m(1)
      by (cases "max_eval < ?e") (auto simp: Let_def strict_max [symmetric])
  qed
qed

lemma ab_min_move:
  "min_eval \<noteq> NegInf \<Longrightarrow> min_eval = PosInf \<or> best_move \<noteq> None \<Longrightarrow>
   rest \<noteq> [] \<or> best_move \<noteq> None \<Longrightarrow>
     \<exists>m. snd (ab_min R d rest alpha beta min_eval best_move b) = Some m
        \<and> (m \<in> set rest \<or> best_move = Some m)"
proof (induction rest arbitrary: beta min_eval best_move)
  case Nil
  then show ?case by auto
next
  case (Cons move rest)
  let ?e = "fst (ab R d alpha beta True (push R move b))"
  let ?bm = "if ?e < min_eval then Some move else best_move"
  have fe: "finite_score ?e" by (rule ab_finite(1))
  have fm: "finite_score (min min_eval ?e)" using fe Cons.prems(1) by (rule finite_score_min)
  have bm: "?bm \<noteq> None" using fe Cons.prems(2) by (rule better_min_move)
  show ?case
  proof (cases "min beta ?e \<le> alpha")
    case True
    then show ?thesis using bm by (auto simp: Let_def)
  next
    case False
    have p1: "min min_eval ?e \<noteq> NegInf" using fm by auto
    have p2: "min min_eval ?e = PosInf \<or> ?bm \<noteq> None" using bm by blast
    have p3: "rest \<noteq> [] \<or> ?bm \<noteq> None" using bm by blast
    from Cons.IH [OF p1 p2 p3, of "min beta ?e"] obtain m where
      m: "snd (ab_min R d rest alpha (min beta ?e) (min min_eval ?e) ?bm b) = Some m"
        "m \<in> set rest \<or> ?bm = Some m" by blast
    have "m \<in> set (move # rest) \<or> best_move = Some m"
      using m(2) by (auto split: if_splits)
    then show ?thesis
      using False m(1)
      by (cases "?e < min_eval") (auto simp: Let_def strict_min [symmetric])
  qed
qed

lemma ab_internal:
  assumes "\<not> is_game_over R b" "0 < depth" "legal_moves R b \<noteq> []"
  shows "\<exists>x m. ab R depth alpha beta maximizing b = (Fin x, Some m) \<and> m \<in> set (legal_moves R b)"
proof -
  obtain m where m: "snd (ab R depth alpha beta maximizing b) = Some m" "m \<in> set (legal_moves R b)"
  proof (cases maximizing)
    case True
    from ab_max_move [of NegInf None "legal_moves R b" R "depth - 1" alpha beta b] assms(3)
    obtain m where "snd (ab_max R (depth - 1) (legal_moves R b) alpha beta NegInf None b) = Some m"
      "m \<in> set (legal_moves R b)" by auto
    then show ?thesis using that assms True by (simp add: ab.simps)
  next
    case False
    from ab_min_move [of PosInf None "legal_moves R b" R "depth - 1" alpha beta b] assms(3)
    obtain m where "snd (ab_min R (depth - 1) (legal_moves R b) alpha beta PosInf None b) = Some m"
      "m \<in> set (legal_moves R b)" by auto
    then show ?thesis using that assms False by (simp add: ab.simps)
  qed
  have "finite_score (fst (ab R depth alpha beta maximizing b))" by (rule ab_finite(1))
  then obtain x where "fst (ab R depth alpha beta maximizing b) = Fin x"
    by (cases "fst (ab R depth alpha beta maximizing b)") auto
  with m show ?thesis by (auto simp: prod_eq_iff)
qed

text \<open>The search does not ask the rules for the generator.\<close>

lemma evaluate_randbelow: "evaluate (R\<lparr>randbelow := f\<rparr>) b = evaluate R b"
  by (simp add: evaluate_def mobility_def)

lemma push_randbelow: "push (R\<lparr>randbelow := f\<rparr>) m b = push R m b"
  by (simp add: push_def)

lemma ab_randbelow:
  "ab (R\<lparr>randbelow := f\<rparr>) depth alpha beta maximizing b = ab R depth alpha beta maximizing b"
  "ab_max (R\<lparr>randbelow := f\<rparr>) d rest alpha beta max_eval best_move b =
     ab_max R d rest alpha beta max_eval best_move b"
  "ab_min (R\<lparr>randbelow := f\<rparr>) d rest alpha beta min_eval best_move b =
     ab_min R d rest alpha beta min_eval best_move b"
proof (induction R depth alpha beta maximizing b
    and R d rest alpha beta max_eval best_move b
    and R d rest alpha beta min_eval best_move b rule: ab_ab_max_ab_min.induct)
  case (1 R depth alpha beta maximizing b)
  then show ?case
    by (simp add: ab.simps [of _ depth] terminal_score_def evaluate_randbelow)
next
  case (2 R d alpha beta max_eval best_move b)
  then show ?case by simp
next
  case (3 R d move rest alpha beta max_eval best_move b)
  then show ?case by (simp add: Let_def push_randbelow)
next
  case (4 R d alpha beta min_eval best_move b)
  then show ?case by simp
next
  case (5 R d move rest alpha beta min_eval best_move b)
  then show ?case by (simp add: Let_def push_randbelow)
qed

text \<open>
  C8, as the claim states it: every position that is not over yields a move. At depth 0
  it does not: the source returns the evaluation and no move.
\<close>

theorem minimax_no_move_counterexample:
  "\<not> is_game_over tiny_rules (tiny_board WHITE 0)
   \<and> minimax tiny_rules 0 NegInf PosInf True (tiny_board WHITE 0, 0) =
       Inr ((Fin (14 / 10), None), (tiny_board WHITE 0, 0))"
  by (simp add: minimax.simps tiny_not_over tiny_evaluate_white)

text \<open>
  C8, amended: \<open>minimax\<close> never returns an error. On every position that is not over,
  with a positive depth and at least one legal move, it returns a move, which is one of
  the legal moves. On every position that is not over, at depth 0 or with no legal move,
  it returns the score of \<open>evaluate\<close> and no move, whatever the window and the
  \<open>maximizing\<close> flag.
\<close>

theorem minimax_no_error:
  "\<exists>s mv st. minimax R depth alpha beta maximizing (b, r) = Inr ((s, mv), st)
     \<and> (\<not> is_game_over R b \<and> 0 < depth \<and> legal_moves R b \<noteq> []
          \<longrightarrow> (\<exists>m \<in> set (legal_moves R b). mv = Some m))
     \<and> (\<not> is_game_over R b \<and> (depth = 0 \<or> legal_moves R b = [])
          \<longrightarrow> s = Fin (fst (evaluate R b)) \<and> mv = None)"
proof (cases "\<not> is_game_over R b \<and> 0 < depth \<and> legal_moves R b \<noteq> []")
  case True
  then obtain x m where "ab R depth alpha beta maximizing b = (Fin x, Some m)"
    "m \<in> set (legal_moves R b)"
    using ab_internal [of R b depth alpha beta maximizing] by blast
  then show ?thesis using True by (auto simp: minimax_char(1))
next
  case False
  show ?thesis
  proof (cases "is_game_over R b")
    case True
    then show ?thesis
      by (cases "ab R depth alpha beta maximizing b") (auto simp: minimax_char(1))
  next
    case over: False
    with False have "depth = 0 \<or> legal_moves R b = []" by auto
    then have "ab R depth alpha beta maximizing b = (Fin (fst (evaluate R b)), None)"
      using over by (auto simp: ab.simps)
    then show ?thesis using False by (auto simp: minimax_char(1))
  qed
qed

theorem minimax_no_error_witness:
  "\<not> is_game_over tiny_rules (tiny_board WHITE 0) \<and> 0 < (3::nat)
   \<and> legal_moves tiny_rules (tiny_board WHITE 0) \<noteq> []
   \<and> (\<exists>s mv st. minimax tiny_rules 3 NegInf PosInf True (tiny_board WHITE 0, 0) = Inr ((s, mv), st)
        \<and> (\<exists>m \<in> set (legal_moves tiny_rules (tiny_board WHITE 0)). mv = Some m))
   \<and> (\<exists>s mv st. minimax tiny_rules 0 (Fin 2) (Fin 1) False (tiny_board WHITE 0, 0) = Inr ((s, mv), st)
        \<and> s = Fin (fst (evaluate tiny_rules (tiny_board WHITE 0))) \<and> mv = None)"
proof -
  have h: "\<not> is_game_over tiny_rules (tiny_board WHITE 0)"
    "legal_moves tiny_rules (tiny_board WHITE 0) \<noteq> []"
    by (simp_all add: tiny_not_over tiny_legal)
  have "\<exists>s mv st. minimax tiny_rules 3 NegInf PosInf True (tiny_board WHITE 0, 0) = Inr ((s, mv), st)
        \<and> (\<exists>m \<in> set (legal_moves tiny_rules (tiny_board WHITE 0)). mv = Some m)"
    using h minimax_no_error [of tiny_rules 3 NegInf PosInf True "tiny_board WHITE 0" 0]
    by auto
  moreover have "\<exists>s mv st. minimax tiny_rules 0 (Fin 2) (Fin 1) False (tiny_board WHITE 0, 0) =
        Inr ((s, mv), st)
        \<and> s = Fin (fst (evaluate tiny_rules (tiny_board WHITE 0))) \<and> mv = None"
    using h minimax_no_error [of tiny_rules 0 "Fin 2" "Fin 1" False "tiny_board WHITE 0" 0]
    by auto
  ultimately show ?thesis using h by simp
qed

text \<open>
  C9: on a position that is not over, with a positive depth and at least one legal move,
  \<open>minimax\<close> returns a finite score and a recorded move, and leaves the board and the
  state of the generator as they were; score and move are the same whatever the state of
  the generator is and whatever the generator would return, so \<open>random.choice\<close> is
  never called.
\<close>

theorem minimax_no_fallback:
  assumes "\<not> is_game_over R b" "0 < depth" "legal_moves R b \<noteq> []"
  shows "\<exists>x mv. \<forall>f r. minimax (R\<lparr>randbelow := f\<rparr>) depth alpha beta maximizing (b, r) =
           Inr ((Fin x, Some mv), (b, r))"
proof -
  obtain x m where xm: "ab R depth alpha beta maximizing b = (Fin x, Some m)"
    using ab_internal [OF assms] by blast
  have "minimax (R\<lparr>randbelow := f\<rparr>) depth alpha beta maximizing (b, r) =
           Inr ((Fin x, Some m), (b, r))" for f r
    using assms xm by (simp add: minimax_char(1) ab_randbelow(1) after_search_def)
  then show ?thesis by blast
qed

theorem minimax_no_fallback_witness:
  "\<not> is_game_over tiny_rules (tiny_board WHITE 0) \<and> 0 < (3::nat)
   \<and> legal_moves tiny_rules (tiny_board WHITE 0) \<noteq> []
   \<and> (\<exists>x mv. \<forall>f r. minimax (tiny_rules\<lparr>randbelow := f\<rparr>) 3 NegInf PosInf True (tiny_board WHITE 0, r) =
           Inr ((Fin x, Some mv), (tiny_board WHITE 0, r)))"
proof -
  have h: "\<not> is_game_over tiny_rules (tiny_board WHITE 0)" "0 < (3::nat)"
    "legal_moves tiny_rules (tiny_board WHITE 0) \<noteq> []"
    by (simp_all add: tiny_not_over tiny_legal)
  show ?thesis
    using h minimax_no_fallback [OF h, of NegInf PosInf True] by blast
qed

section \<open>The full-width search\<close>

lemma fw_finite:
  "finite_score (fw_score R depth maximizing b)"
  "max_eval \<noteq> PosInf \<Longrightarrow> rest \<noteq> [] \<or> max_eval \<noteq> NegInf \<Longrightarrow>
     finite_score (fw_max R d rest max_eval b)"
  "min_eval \<noteq> NegInf \<Longrightarrow> rest \<noteq> [] \<or> min_eval \<noteq> PosInf \<Longrightarrow>
     finite_score (fw_min R d rest min_eval b)"
proof (induction R depth maximizing b and R d rest max_eval b and R d rest min_eval b
    rule: fw_score_fw_max_fw_min.induct)
  case (1 R depth maximizing b)
  then show ?case by (simp add: finite_terminal fw_score.simps)
next
  case (2 R d max_eval b)
  then show ?case by (cases max_eval) simp_all
next
  case (3 R d move rest max_eval b)
  let ?m = "max max_eval (fw_score R d False (push R move b))"
  have "finite_score ?m"
    using "3.IH"(1) "3.prems"(1) by (rule finite_score_max)
  then have "?m \<noteq> PosInf" "rest \<noteq> [] \<or> ?m \<noteq> NegInf" by auto
  then have "finite_score (fw_max R d rest ?m b)" by (rule "3.IH"(2))
  then show ?case by simp
next
  case (4 R d min_eval b)
  then show ?case by (cases min_eval) simp_all
next
  case (5 R d move rest min_eval b)
  let ?m = "min min_eval (fw_score R d True (push R move b))"
  have "finite_score ?m"
    using "5.IH"(1) "5.prems"(1) by (rule finite_score_min)
  then have "?m \<noteq> NegInf" "rest \<noteq> [] \<or> ?m \<noteq> PosInf" by auto
  then have "finite_score (fw_min R d rest ?m b)" by (rule "5.IH"(2))
  then show ?case by simp
qed

lemma fw_max_ge: "max_eval \<le> fw_max R d rest max_eval b"
proof (induction rest arbitrary: max_eval)
  case Nil
  show ?case by simp
next
  case (Cons move rest)
  have "max_eval \<le> max max_eval (fw_score R d False (push R move b))" by simp
  also have "\<dots> \<le> fw_max R d rest (max max_eval (fw_score R d False (push R move b))) b"
    by (rule Cons.IH)
  finally show ?case by simp
qed

lemma fw_min_le: "fw_min R d rest min_eval b \<le> min_eval"
proof (induction rest arbitrary: min_eval)
  case Nil
  show ?case by simp
next
  case (Cons move rest)
  have "fw_min R d rest (min min_eval (fw_score R d True (push R move b))) b
      \<le> min min_eval (fw_score R d True (push R move b))"
    by (rule Cons.IH)
  also have "\<dots> \<le> min_eval" by simp
  finally show ?case by simp
qed


text \<open>
  \<open>minimax_full\<close> never fails, its score is \<open>fw_score\<close>, and it leaves the board and
  the generator as \<open>minimax\<close> does.
\<close>

lemma minimax_full_char:
  "\<exists>mv. minimax_full R depth alpha beta maximizing s =
      Inr ((fw_score R depth maximizing (fst s), mv), (after_search R depth (fst s), snd s))"
  "max_eval \<noteq> PosInf \<Longrightarrow> max_eval = NegInf \<or> best_move \<noteq> None \<Longrightarrow>
   rest \<noteq> [] \<or> best_move \<noteq> None \<Longrightarrow>
     \<exists>mv. max_loop_full R d legal rest alpha beta max_eval best_move s =
       Inr ((fw_max R d rest max_eval (fst s), Some mv), s)"
  "min_eval \<noteq> NegInf \<Longrightarrow> min_eval = PosInf \<or> best_move \<noteq> None \<Longrightarrow>
   rest \<noteq> [] \<or> best_move \<noteq> None \<Longrightarrow>
     \<exists>mv. min_loop_full R d legal rest alpha beta min_eval best_move s =
       Inr ((fw_min R d rest min_eval (fst s), Some mv), s)"
proof (induction R depth alpha beta maximizing s
    and R d legal rest alpha beta max_eval best_move s
    and R d legal rest alpha beta min_eval best_move s
    rule: minimax_full_max_loop_full_min_loop_full.induct)
  case (1 R depth alpha beta maximizing b r)
  show ?case
  proof (cases "is_game_over R b \<or> depth = 0 \<or> legal_moves R b = []")
    case True
    then show ?thesis
      by (cases "evaluate R b")
        (auto simp: terminal_score_def after_search_def minimax_full.simps fw_score.simps)
  next
    case False
    then have nt: "\<not> is_game_over R b" "depth \<noteq> 0" "legal_moves R b \<noteq> []" by auto
    show ?thesis
    proof (cases maximizing)
      case True
      from "1.IH"(1) [OF nt True] nt(3) show ?thesis
        using nt True by (auto simp: after_search_def minimax_full.simps fw_score.simps)
    next
      case False
      from "1.IH"(2) [OF nt False] nt(3) show ?thesis
        using nt False by (auto simp: after_search_def minimax_full.simps fw_score.simps)
    qed
  qed
next
  case (2 R d legal alpha beta max_eval best_move b r)
  then show ?case by (auto simp: finish_Some)
next
  case (3 R d legal move rest alpha beta max_eval best_move b r)
  let ?e = "fw_score R d False (push R move b)"
  let ?bm = "if max_eval < ?e then Some move else best_move"
  from "3.IH"(1) obtain mv0 where call:
    "minimax_full R d alpha beta False (push R move b, r) =
       Inr ((?e, mv0), (after_search R d (push R move b), r))" by auto
  have fe: "finite_score ?e" by (rule fw_finite(1))
  have fm: "finite_score (max max_eval ?e)" using fe "3.prems"(1) by (rule finite_score_max)
  have bm: "?bm \<noteq> None" using fe "3.prems"(2) by (rule better_max_move)
  have p1: "max max_eval ?e \<noteq> PosInf" using fm by auto
  have p2: "max max_eval ?e = NegInf \<or> ?bm \<noteq> None" using bm by blast
  have p3: "rest \<noteq> [] \<or> ?bm \<noteq> None" using bm by blast
  have "\<exists>mv. max_loop_full R d legal rest (max alpha ?e) beta (max max_eval ?e) ?bm (b, r) =
       Inr ((fw_max R d rest (max max_eval ?e) (fst (b, r)), Some mv), (b, r))"
    by (rule "3.IH"(2) [OF call refl refl refl pop_after_search strict_max [symmetric]
          refl refl p1 p2 p3])
  then show ?case
    by (cases "max_eval < ?e")
      (simp_all add: call pop_after_search Let_def strict_max [symmetric])
next
  case (4 R d legal alpha beta min_eval best_move b r)
  then show ?case by (auto simp: finish_Some)
next
  case (5 R d legal move rest alpha beta min_eval best_move b r)
  let ?e = "fw_score R d True (push R move b)"
  let ?bm = "if ?e < min_eval then Some move else best_move"
  from "5.IH"(1) obtain mv0 where call:
    "minimax_full R d alpha beta True (push R move b, r) =
       Inr ((?e, mv0), (after_search R d (push R move b), r))" by auto
  have fe: "finite_score ?e" by (rule fw_finite(1))
  have fm: "finite_score (min min_eval ?e)" using fe "5.prems"(1) by (rule finite_score_min)
  have bm: "?bm \<noteq> None" using fe "5.prems"(2) by (rule better_min_move)
  have p1: "min min_eval ?e \<noteq> NegInf" using fm by auto
  have p2: "min min_eval ?e = PosInf \<or> ?bm \<noteq> None" using bm by blast
  have p3: "rest \<noteq> [] \<or> ?bm \<noteq> None" using bm by blast
  have "\<exists>mv. min_loop_full R d legal rest alpha (min beta ?e) (min min_eval ?e) ?bm (b, r) =
       Inr ((fw_min R d rest (min min_eval ?e) (fst (b, r)), Some mv), (b, r))"
    by (rule "5.IH"(2) [OF call refl refl refl pop_after_search strict_min [symmetric]
          refl refl p1 p2 p3])
  then show ?case
    by (cases "?e < min_eval")
      (simp_all add: call pop_after_search Let_def strict_min [symmetric])
qed


section \<open>Pruning does not change the score\<close>

lemma in_windowI:
  "(r \<le> a \<Longrightarrow> v \<le> r) \<Longrightarrow> (b \<le> r \<Longrightarrow> r \<le> v) \<Longrightarrow> (a < r \<Longrightarrow> r < b \<Longrightarrow> r = v)
     \<Longrightarrow> in_window a b v r"
  by (simp add: in_window_def)

lemma in_window_below: "in_window a b v r \<Longrightarrow> a < b \<Longrightarrow> r < b \<Longrightarrow> v \<le> r"
  by (auto simp: in_window_def not_le)

lemma in_window_inside: "in_window a b v r \<Longrightarrow> a < r \<Longrightarrow> r < b \<Longrightarrow> r = v"
  by (simp add: in_window_def)

lemma in_window_above: "in_window a b v r \<Longrightarrow> b \<le> r \<Longrightarrow> r \<le> v"
  by (simp add: in_window_def)

lemma in_window_below': "in_window a b v r \<Longrightarrow> r \<le> a \<Longrightarrow> v \<le> r"
  by (simp add: in_window_def)

lemma in_window_above': "in_window a b v r \<Longrightarrow> a < b \<Longrightarrow> a < r \<Longrightarrow> r \<le> v"
  by (auto simp: in_window_def not_le not_less)

lemma in_window_full: "in_window NegInf PosInf v r \<Longrightarrow> finite_score r \<Longrightarrow> r = v"
  by (cases r) (simp_all add: in_window_def)

text \<open>
  The loops, generalised: \<open>a0\<close> is the \<open>alpha\<close> the node was called with, \<open>V\<close> the
  full-width running best of the moves already examined, of which \<open>max_eval\<close> is an
  upper bound that is exact once it exceeds \<open>a0\<close>; dually for the minimising loop.
\<close>

lemma ab_in_window:
  "alpha < beta \<longrightarrow>
     in_window alpha beta (fw_score R depth maximizing b) (fst (ab R depth alpha beta maximizing b))"
  "\<forall>a0 V. alpha < beta \<and> alpha = max a0 max_eval \<and> V \<le> max_eval \<and> (a0 < max_eval \<longrightarrow> max_eval = V)
     \<longrightarrow> in_window a0 beta (fw_max R d rest V b)
           (fst (ab_max R d rest alpha beta max_eval best_move b))"
  "\<forall>b0 V. alpha < beta \<and> beta = min b0 min_eval \<and> min_eval \<le> V \<and> (min_eval < b0 \<longrightarrow> min_eval = V)
     \<longrightarrow> in_window alpha b0 (fw_min R d rest V b)
           (fst (ab_min R d rest alpha beta min_eval best_move b))"
proof (induction R depth alpha beta maximizing b
    and R d rest alpha beta max_eval best_move b
    and R d rest alpha beta min_eval best_move b rule: ab_ab_max_ab_min.induct)
  case (1 R depth alpha beta maximizing b)
  show ?case
  proof
    assume ab: "alpha < beta"
    show "in_window alpha beta (fw_score R depth maximizing b)
            (fst (ab R depth alpha beta maximizing b))"
    proof (cases "is_game_over R b \<or> depth = 0 \<or> legal_moves R b = []")
      case True
      then have "fst (ab R depth alpha beta maximizing b) = fw_score R depth maximizing b"
        by (auto simp: ab.simps fw_score.simps)
      then show ?thesis by (simp add: in_window_def)
    next
      case False
      then have nt: "\<not> is_game_over R b" "depth \<noteq> 0" "legal_moves R b \<noteq> []" by auto
      show ?thesis
      proof (cases maximizing)
        case True
        have "in_window alpha beta (fw_max R (depth - 1) (legal_moves R b) NegInf b)
                (fst (ab_max R (depth - 1) (legal_moves R b) alpha beta NegInf None b))"
          using "1.IH"(1) [OF nt True] ab by (simp add: max_def)
        then show ?thesis using nt True by (simp add: ab.simps fw_score.simps)
      next
        case False
        have "in_window alpha beta (fw_min R (depth - 1) (legal_moves R b) PosInf b)
                (fst (ab_min R (depth - 1) (legal_moves R b) alpha beta PosInf None b))"
          using "1.IH"(2) [OF nt False] ab by (simp add: min_def)
        then show ?thesis using nt False by (simp add: ab.simps fw_score.simps)
      qed
    qed
  qed
next
  case (2 R d alpha beta max_eval best_move b)
  show ?case
  proof (intro allI impI, elim conjE)
    fix a0 V
    assume h: "alpha < beta" "alpha = max a0 max_eval" "V \<le> max_eval"
      "a0 < max_eval \<longrightarrow> max_eval = V"
    have "max_eval < beta" using h(1,2) by (simp add: max_def split: if_splits)
    then show "in_window a0 beta (fw_max R d [] V b)
        (fst (ab_max R d [] alpha beta max_eval best_move b))"
      using h by (auto simp: in_window_def)
  qed
next
  case (3 R d move rest alpha beta max_eval best_move b)
  let ?e = "fst (ab R d alpha beta False (push R move b))"
  let ?v = "fw_score R d False (push R move b)"
  let ?bm = "if max_eval < ?e then Some move else best_move"
  show ?case
  proof (intro allI impI, elim conjE)
    fix a0 V
    assume h: "alpha < beta" "alpha = max a0 max_eval" "V \<le> max_eval"
      "a0 < max_eval \<longrightarrow> max_eval = V"
    have w: "in_window alpha beta ?v ?e" using "3.IH"(1) h(1) by blast
    have a0: "a0 \<le> alpha" and me: "max_eval \<le> alpha" using h(2) by simp_all
    have fw: "fw_max R d (move # rest) V b = fw_max R d rest (max V ?v) b" by simp
    show "in_window a0 beta (fw_max R d (move # rest) V b)
        (fst (ab_max R d (move # rest) alpha beta max_eval best_move b))"
    proof (cases "beta \<le> max alpha ?e")
      case True
      then have be: "beta \<le> ?e" using h(1) by (simp add: max_def split: if_splits)
      then have lt: "max_eval < ?e" using me h(1) by simp
      have res: "fst (ab_max R d (move # rest) alpha beta max_eval best_move b) = ?e"
        using True lt by (simp add: Let_def)
      have "?e \<le> ?v" using w be by (rule in_window_above)
      also have "\<dots> \<le> max V ?v" by simp
      also have "\<dots> \<le> fw_max R d rest (max V ?v) b" by (rule fw_max_ge)
      finally have "?e \<le> fw_max R d (move # rest) V b" by simp
      moreover have "a0 < ?e" using a0 h(1) be by simp
      ultimately show ?thesis
        unfolding res using be by (intro in_windowI) simp_all
    next
      case False
      then have eb: "?e < beta" by (simp add: not_le)
      have ve: "?v \<le> ?e" using w h(1) eb by (rule in_window_below)
      have step: "?e = ?v" if "alpha < ?e" using w that eb by (rule in_window_inside)
      have res: "fst (ab_max R d (move # rest) alpha beta max_eval best_move b) =
          fst (ab_max R d rest (max alpha ?e) beta (max max_eval ?e) ?bm b)"
        using False by (simp add: Let_def strict_max)
      have c1: "max alpha ?e < beta" using False by (simp add: not_le)
      have c2: "max alpha ?e = max a0 (max max_eval ?e)"
        using h(2) by (simp add: max.assoc)
      have c3: "max V ?v \<le> max max_eval ?e" using h(3) ve by (rule max.mono)
      have c4: "a0 < max max_eval ?e \<longrightarrow> max max_eval ?e = max V ?v"
      proof
        assume lt: "a0 < max max_eval ?e"
        show "max max_eval ?e = max V ?v"
        proof (cases "max_eval < ?e")
          case True
          then have "alpha < ?e" using lt h(2) by (simp add: max_def split: if_splits)
          then have "?e = ?v" by (rule step)
          then show ?thesis using True h(3) by (auto simp: max_def)
        next
          case False
          then have "a0 < max_eval" using lt by (simp add: max_def split: if_splits)
          then have "max_eval = V" using h(4) by blast
          then show ?thesis using False ve by (auto simp: max_def)
        qed
      qed
      have "in_window a0 beta (fw_max R d rest (max V ?v) b)
          (fst (ab_max R d rest (max alpha ?e) beta (max max_eval ?e) ?bm b))"
        using "3.IH"(2) [OF refl strict_max [symmetric] refl refl False] c1 c2 c3 c4 by blast
      then show ?thesis unfolding res fw .
    qed
  qed
next
  case (4 R d alpha beta min_eval best_move b)
  show ?case
  proof (intro allI impI, elim conjE)
    fix b0 V
    assume h: "alpha < beta" "beta = min b0 min_eval" "min_eval \<le> V"
      "min_eval < b0 \<longrightarrow> min_eval = V"
    have "alpha < min_eval" using h(1,2) by (simp add: min_def split: if_splits)
    then show "in_window alpha b0 (fw_min R d [] V b)
        (fst (ab_min R d [] alpha beta min_eval best_move b))"
      using h by (auto simp: in_window_def)
  qed
next
  case (5 R d move rest alpha beta min_eval best_move b)
  let ?e = "fst (ab R d alpha beta True (push R move b))"
  let ?v = "fw_score R d True (push R move b)"
  let ?bm = "if ?e < min_eval then Some move else best_move"
  show ?case
  proof (intro allI impI, elim conjE)
    fix b0 V
    assume h: "alpha < beta" "beta = min b0 min_eval" "min_eval \<le> V"
      "min_eval < b0 \<longrightarrow> min_eval = V"
    have w: "in_window alpha beta ?v ?e" using "5.IH"(1) h(1) by blast
    have b0: "beta \<le> b0" and me: "beta \<le> min_eval" using h(2) by simp_all
    have fw: "fw_min R d (move # rest) V b = fw_min R d rest (min V ?v) b" by simp
    show "in_window alpha b0 (fw_min R d (move # rest) V b)
        (fst (ab_min R d (move # rest) alpha beta min_eval best_move b))"
    proof (cases "min beta ?e \<le> alpha")
      case True
      then have be: "?e \<le> alpha" using h(1) by (simp add: min_def split: if_splits)
      then have lt: "?e < min_eval" using me h(1) by simp
      have res: "fst (ab_min R d (move # rest) alpha beta min_eval best_move b) = ?e"
        using True lt by (simp add: Let_def)
      have "fw_min R d rest (min V ?v) b \<le> min V ?v" by (rule fw_min_le)
      also have "\<dots> \<le> ?v" by simp
      also have "\<dots> \<le> ?e" using w be by (rule in_window_below')
      finally have "fw_min R d (move # rest) V b \<le> ?e" by simp
      moreover have "?e < b0" using b0 h(1) be by simp
      ultimately show ?thesis
        unfolding res using be by (intro in_windowI) simp_all
    next
      case False
      then have eb: "alpha < ?e" by (simp add: not_le min_def split: if_splits)
      have ve: "?e \<le> ?v" using w h(1) eb by (rule in_window_above')
      have step: "?e = ?v" if "?e < beta" using w eb that by (rule in_window_inside)
      have res: "fst (ab_min R d (move # rest) alpha beta min_eval best_move b) =
          fst (ab_min R d rest alpha (min beta ?e) (min min_eval ?e) ?bm b)"
        using False by (simp add: Let_def strict_min)
      have c1: "alpha < min beta ?e" using False by (simp add: not_le)
      have c2: "min beta ?e = min b0 (min min_eval ?e)"
        using h(2) by (simp add: min.assoc)
      have c3: "min min_eval ?e \<le> min V ?v" using h(3) ve by (rule min.mono)
      have c4: "min min_eval ?e < b0 \<longrightarrow> min min_eval ?e = min V ?v"
      proof
        assume lt: "min min_eval ?e < b0"
        show "min min_eval ?e = min V ?v"
        proof (cases "?e < min_eval")
          case True
          then have "?e < beta" using lt h(2) by (simp add: min_def split: if_splits)
          then have "?e = ?v" by (rule step)
          then show ?thesis using True h(3) by (auto simp: min_def)
        next
          case False
          then have "min_eval < b0" using lt by (simp add: min_def split: if_splits)
          then have "min_eval = V" using h(4) by blast
          then show ?thesis using False ve by (auto simp: min_def)
        qed
      qed
      have "in_window alpha b0 (fw_min R d rest (min V ?v) b)
          (fst (ab_min R d rest alpha (min beta ?e) (min min_eval ?e) ?bm b))"
        using "5.IH"(2) [OF refl strict_min [symmetric] refl refl False] c1 c2 c3 c4 by blast
      then show ?thesis unfolding res fw .
    qed
  qed
qed


text \<open>
  C1: for every position and every depth (so for every depth at most 3), and either value
  of \<open>maximizing\<close>, \<open>minimax\<close> called with the full window returns the same score as
  the same search with pruning disabled; both leave the same board and generator state.
\<close>

theorem pruning_keeps_score:
  "\<exists>s mv mv' st.
     minimax R depth NegInf PosInf maximizing (b, r) = Inr ((s, mv), st)
     \<and> minimax_full R depth NegInf PosInf maximizing (b, r) = Inr ((s, mv'), st)"
proof -
  let ?a = "ab R depth NegInf PosInf maximizing b"
  obtain mv' where full: "minimax_full R depth NegInf PosInf maximizing (b, r) =
      Inr ((fw_score R depth maximizing b, mv'), (after_search R depth b, r))"
    using minimax_full_char(1) [of R depth NegInf PosInf maximizing "(b, r)"] by auto
  have "in_window NegInf PosInf (fw_score R depth maximizing b) (fst ?a)"
    using ab_in_window(1) [of NegInf PosInf R depth maximizing b] by simp
  then have "fst ?a = fw_score R depth maximizing b"
    using ab_finite(1) by (rule in_window_full)
  then have "minimax R depth NegInf PosInf maximizing (b, r) =
      Inr ((fw_score R depth maximizing b, snd ?a), (after_search R depth b, r))"
    by (simp add: minimax_char(1) prod_eq_iff)
  with full show ?thesis by blast
qed

section \<open>Ties go to the earliest move\<close>

lemma examined_max_Cons:
  "examined_max R d (move # rest) alpha beta (b, r) =
     fst (ab R d alpha beta False (push R move b)) #
       (if beta \<le> max alpha (fst (ab R d alpha beta False (push R move b))) then []
        else examined_max R d rest (max alpha (fst (ab R d alpha beta False (push R move b))))
               beta (b, r))"
  by (simp add: minimax_char(1) pop_after_search case_prod_beta)

lemma examined_min_Cons:
  "examined_min R d (move # rest) alpha beta (b, r) =
     fst (ab R d alpha beta True (push R move b)) #
       (if min beta (fst (ab R d alpha beta True (push R move b))) \<le> alpha then []
        else examined_min R d rest alpha (min beta (fst (ab R d alpha beta True (push R move b))))
               (b, r))"
  by (simp add: minimax_char(1) pop_after_search case_prod_beta)

lemma best_max_Nil: "best_max [] ms m0 bm (m0, bm)"
  by (simp add: best_max_def)

lemma best_min_Nil: "best_min [] ms m0 bm (m0, bm)"
  by (simp add: best_min_def)

lemma best_max_keep:
  "length es \<le> length ms \<Longrightarrow> \<forall>j<length es. es ! j \<le> m0 \<Longrightarrow> best_max es ms m0 bm (m0, bm)"
  by (simp add: best_max_def)

lemma best_max_beat:
  assumes "length es \<le> length ms" "i < length es" "m0 < es ! i"
    "\<forall>j<i. es ! j < es ! i" "\<forall>j<length es. es ! j \<le> es ! i"
  shows "best_max es ms m0 bm (es ! i, Some (ms ! i))"
proof -
  have "\<not> (\<forall>j<length es. es ! j \<le> m0)" using assms(2,3) by (auto simp: not_le)
  moreover have "\<exists>k<length es. (es ! i, Some (ms ! i)) = (es ! k, Some (ms ! k)) \<and> m0 < es ! k
      \<and> (\<forall>j<k. es ! j < es ! k) \<and> (\<forall>j<length es. es ! j \<le> es ! k)"
    using assms by blast
  ultimately show ?thesis using assms(1) unfolding best_max_def by (simp only: if_False simp_thms)
qed

lemma best_max_cases:
  assumes "best_max es ms m0 bm res"
  obtains (keep) "length es \<le> length ms" "\<forall>j<length es. es ! j \<le> m0" "res = (m0, bm)"
  | (beat) i where "length es \<le> length ms" "i < length es" "res = (es ! i, Some (ms ! i))"
      "m0 < es ! i" "\<forall>j<i. es ! j < es ! i" "\<forall>j<length es. es ! j \<le> es ! i"
proof (cases "\<forall>j<length es. es ! j \<le> m0")
  case True
  with assms show ?thesis using keep by (simp add: best_max_def)
next
  case False
  with assms have "\<exists>i<length es. res = (es ! i, Some (ms ! i)) \<and> m0 < es ! i
      \<and> (\<forall>j<i. es ! j < es ! i) \<and> (\<forall>j<length es. es ! j \<le> es ! i)"
    and "length es \<le> length ms"
    by (simp_all add: best_max_def)
  then show ?thesis using beat by blast
qed

lemma best_max_Cons:
  assumes "best_max es ms (if m0 < e then e else m0) (if m0 < e then Some move else bm) res"
  shows "best_max (e # es) (move # ms) m0 bm res"
proof (cases "m0 < e")
  case True
  with assms have "best_max es ms e (Some move) res" by simp
  then show ?thesis
  proof (cases rule: best_max_cases)
    case keep
    have "best_max (e # es) (move # ms) m0 bm ((e # es) ! 0, Some ((move # ms) ! 0))"
    proof (rule best_max_beat)
      show "\<forall>j<length (e # es). (e # es) ! j \<le> (e # es) ! 0"
        using keep(2) by (auto simp: nth_Cons')
    qed (use keep(1) True in simp_all)
    then show ?thesis using keep(3) by simp
  next
    case (beat i)
    have "best_max (e # es) (move # ms) m0 bm ((e # es) ! Suc i, Some ((move # ms) ! Suc i))"
    proof (rule best_max_beat)
      show "\<forall>j<Suc i. (e # es) ! j < (e # es) ! Suc i"
        using beat(4,5) by (auto simp: nth_Cons')
      show "\<forall>j<length (e # es). (e # es) ! j \<le> (e # es) ! Suc i"
        using beat(4,6) by (auto simp: nth_Cons')
      show "m0 < (e # es) ! Suc i" using True beat(4) by simp
    qed (use beat(1,2) in simp_all)
    then show ?thesis using beat(3) by simp
  qed
next
  case False
  then have e: "e \<le> m0" by simp
  from False assms have "best_max es ms m0 bm res" by simp
  then show ?thesis
  proof (cases rule: best_max_cases)
    case keep
    have "best_max (e # es) (move # ms) m0 bm (m0, bm)"
    proof (rule best_max_keep)
      show "\<forall>j<length (e # es). (e # es) ! j \<le> m0"
        using keep(2) e by (auto simp: nth_Cons')
    qed (use keep(1) in simp)
    then show ?thesis using keep(3) by simp
  next
    case (beat i)
    have "best_max (e # es) (move # ms) m0 bm ((e # es) ! Suc i, Some ((move # ms) ! Suc i))"
    proof (rule best_max_beat)
      show "\<forall>j<Suc i. (e # es) ! j < (e # es) ! Suc i"
        using beat(4,5) e by (auto simp: nth_Cons')
      show "\<forall>j<length (e # es). (e # es) ! j \<le> (e # es) ! Suc i"
        using beat(4,6) e by (auto simp: nth_Cons')
      show "m0 < (e # es) ! Suc i" using beat(4) by simp
    qed (use beat(1,2) in simp_all)
    then show ?thesis using beat(3) by simp
  qed
qed

lemma best_min_keep:
  "length es \<le> length ms \<Longrightarrow> \<forall>j<length es. m0 \<le> es ! j \<Longrightarrow> best_min es ms m0 bm (m0, bm)"
  by (simp add: best_min_def)

lemma best_min_beat:
  assumes "length es \<le> length ms" "i < length es" "es ! i < m0"
    "\<forall>j<i. es ! i < es ! j" "\<forall>j<length es. es ! i \<le> es ! j"
  shows "best_min es ms m0 bm (es ! i, Some (ms ! i))"
proof -
  have "\<not> (\<forall>j<length es. m0 \<le> es ! j)" using assms(2,3) by (auto simp: not_le)
  moreover have "\<exists>k<length es. (es ! i, Some (ms ! i)) = (es ! k, Some (ms ! k)) \<and> es ! k < m0
      \<and> (\<forall>j<k. es ! k < es ! j) \<and> (\<forall>j<length es. es ! k \<le> es ! j)"
    using assms by blast
  ultimately show ?thesis using assms(1) unfolding best_min_def by (simp only: if_False simp_thms)
qed

lemma best_min_cases:
  assumes "best_min es ms m0 bm res"
  obtains (keep) "length es \<le> length ms" "\<forall>j<length es. m0 \<le> es ! j" "res = (m0, bm)"
  | (beat) i where "length es \<le> length ms" "i < length es" "res = (es ! i, Some (ms ! i))"
      "es ! i < m0" "\<forall>j<i. es ! i < es ! j" "\<forall>j<length es. es ! i \<le> es ! j"
proof (cases "\<forall>j<length es. m0 \<le> es ! j")
  case True
  with assms show ?thesis using keep by (simp add: best_min_def)
next
  case False
  with assms have "\<exists>i<length es. res = (es ! i, Some (ms ! i)) \<and> es ! i < m0
      \<and> (\<forall>j<i. es ! i < es ! j) \<and> (\<forall>j<length es. es ! i \<le> es ! j)"
    and "length es \<le> length ms"
    by (simp_all add: best_min_def)
  then show ?thesis using beat by blast
qed

lemma best_min_Cons:
  assumes "best_min es ms (if e < m0 then e else m0) (if e < m0 then Some move else bm) res"
  shows "best_min (e # es) (move # ms) m0 bm res"
proof (cases "e < m0")
  case True
  with assms have "best_min es ms e (Some move) res" by simp
  then show ?thesis
  proof (cases rule: best_min_cases)
    case keep
    have "best_min (e # es) (move # ms) m0 bm ((e # es) ! 0, Some ((move # ms) ! 0))"
    proof (rule best_min_beat)
      show "\<forall>j<length (e # es). (e # es) ! 0 \<le> (e # es) ! j"
        using keep(2) by (auto simp: nth_Cons')
    qed (use keep(1) True in simp_all)
    then show ?thesis using keep(3) by simp
  next
    case (beat i)
    have "best_min (e # es) (move # ms) m0 bm ((e # es) ! Suc i, Some ((move # ms) ! Suc i))"
    proof (rule best_min_beat)
      show "\<forall>j<Suc i. (e # es) ! Suc i < (e # es) ! j"
        using beat(4,5) by (auto simp: nth_Cons')
      show "\<forall>j<length (e # es). (e # es) ! Suc i \<le> (e # es) ! j"
        using beat(4,6) by (auto simp: nth_Cons')
      show "(e # es) ! Suc i < m0" using True beat(4) by simp
    qed (use beat(1,2) in simp_all)
    then show ?thesis using beat(3) by simp
  qed
next
  case False
  then have e: "m0 \<le> e" by simp
  from False assms have "best_min es ms m0 bm res" by simp
  then show ?thesis
  proof (cases rule: best_min_cases)
    case keep
    have "best_min (e # es) (move # ms) m0 bm (m0, bm)"
    proof (rule best_min_keep)
      show "\<forall>j<length (e # es). m0 \<le> (e # es) ! j"
        using keep(2) e by (auto simp: nth_Cons')
    qed (use keep(1) in simp)
    then show ?thesis using keep(3) by simp
  next
    case (beat i)
    have "best_min (e # es) (move # ms) m0 bm ((e # es) ! Suc i, Some ((move # ms) ! Suc i))"
    proof (rule best_min_beat)
      show "\<forall>j<Suc i. (e # es) ! Suc i < (e # es) ! j"
        using beat(4,5) e by (auto simp: nth_Cons')
      show "\<forall>j<length (e # es). (e # es) ! Suc i \<le> (e # es) ! j"
        using beat(4,6) e by (auto simp: nth_Cons')
      show "(e # es) ! Suc i < m0" using beat(4) by simp
    qed (use beat(1,2) in simp_all)
    then show ?thesis using beat(3) by simp
  qed
qed


lemma ab_max_best:
  "best_max (examined_max R d rest alpha beta (b, r)) rest max_eval best_move
     (ab_max R d rest alpha beta max_eval best_move b)"
proof (induction rest arbitrary: alpha max_eval best_move)
  case Nil
  show ?case by (simp add: best_max_Nil)
next
  case (Cons move rest)
  let ?e = "fst (ab R d alpha beta False (push R move b))"
  let ?me = "if max_eval < ?e then ?e else max_eval"
  let ?bm = "if max_eval < ?e then Some move else best_move"
  let ?es = "if beta \<le> max alpha ?e then []
             else examined_max R d rest (max alpha ?e) beta (b, r)"
  have "best_max ?es rest ?me ?bm (ab_max R d (move # rest) alpha beta max_eval best_move b)"
  proof (cases "beta \<le> max alpha ?e")
    case True
    then show ?thesis by (simp add: Let_def best_max_Nil)
  next
    case False
    then show ?thesis using Cons.IH [of "max alpha ?e" ?me ?bm] by (simp add: Let_def)
  qed
  then have "best_max (?e # ?es) (move # rest) max_eval best_move
      (ab_max R d (move # rest) alpha beta max_eval best_move b)"
    by (rule best_max_Cons)
  then show ?case by (simp only: examined_max_Cons)
qed

lemma ab_min_best:
  "best_min (examined_min R d rest alpha beta (b, r)) rest min_eval best_move
     (ab_min R d rest alpha beta min_eval best_move b)"
proof (induction rest arbitrary: beta min_eval best_move)
  case Nil
  show ?case by (simp add: best_min_Nil)
next
  case (Cons move rest)
  let ?e = "fst (ab R d alpha beta True (push R move b))"
  let ?me = "if ?e < min_eval then ?e else min_eval"
  let ?bm = "if ?e < min_eval then Some move else best_move"
  let ?es = "if min beta ?e \<le> alpha then []
             else examined_min R d rest alpha (min beta ?e) (b, r)"
  have "best_min ?es rest ?me ?bm (ab_min R d (move # rest) alpha beta min_eval best_move b)"
  proof (cases "min beta ?e \<le> alpha")
    case True
    then show ?thesis by (simp add: Let_def best_min_Nil)
  next
    case False
    then show ?thesis using Cons.IH [of "min beta ?e" ?me ?bm] by (simp add: Let_def)
  qed
  then have "best_min (?e # ?es) (move # rest) min_eval best_move
      (ab_min R d (move # rest) alpha beta min_eval best_move b)"
    by (rule best_min_Cons)
  then show ?case by (simp only: examined_min_Cons)
qed

lemma examined_max_first:
  "rest \<noteq> [] \<Longrightarrow> examined_max R d rest alpha beta (b, r) \<noteq> []
     \<and> finite_score (examined_max R d rest alpha beta (b, r) ! 0)"
  by (cases rest) (simp_all only: examined_max_Cons nth_Cons_0 ab_finite(1), simp_all)

lemma examined_min_first:
  "rest \<noteq> [] \<Longrightarrow> examined_min R d rest alpha beta (b, r) \<noteq> []
     \<and> finite_score (examined_min R d rest alpha beta (b, r) ! 0)"
  by (cases rest) (simp_all only: examined_min_Cons nth_Cons_0 ab_finite(1), simp_all)

text \<open>
  C10: at an internal node (a position that is not over, searched with a positive depth
  and having a legal move), let the examined scores be the values \<open>eval_score\<close> takes in
  the loop, in the order of the legal moves. \<open>minimax\<close> returns the move at an index
  \<open>i\<close> of the list of legal moves and the score examined at \<open>i\<close>, no examined score
  is better than that score, and no score examined before \<open>i\<close> equals it: of the moves
  that tie for the best score the earliest is returned.
\<close>

theorem minimax_earliest_best:
  assumes "\<not> is_game_over R b" "0 < depth" "legal_moves R b \<noteq> []"
  shows "\<exists>i<length (examined R depth alpha beta maximizing (b, r)).
           i < length (legal_moves R b)
           \<and> minimax R depth alpha beta maximizing (b, r) =
               Inr ((examined R depth alpha beta maximizing (b, r) ! i,
                     Some (legal_moves R b ! i)), (b, r))
           \<and> (\<forall>j<i. examined R depth alpha beta maximizing (b, r) ! j
                      \<noteq> examined R depth alpha beta maximizing (b, r) ! i)
           \<and> (\<forall>j<length (examined R depth alpha beta maximizing (b, r)).
                 if maximizing
                 then examined R depth alpha beta maximizing (b, r) ! j
                        \<le> examined R depth alpha beta maximizing (b, r) ! i
                 else examined R depth alpha beta maximizing (b, r) ! i
                        \<le> examined R depth alpha beta maximizing (b, r) ! j)"
proof (cases maximizing)
  case True
  let ?es = "examined_max R (depth - 1) (legal_moves R b) alpha beta (b, r)"
  have es: "examined R depth alpha beta maximizing (b, r) = ?es"
    using True by (simp add: examined_def)
  have res: "minimax R depth alpha beta maximizing (b, r) =
      Inr (ab_max R (depth - 1) (legal_moves R b) alpha beta NegInf None b, (b, r))"
    using assms True by (simp add: minimax_char(1) ab.simps after_search_def)
  have first: "?es \<noteq> []" "finite_score (?es ! 0)"
    using examined_max_first [OF assms(3), of R "depth - 1" alpha beta b r] by simp_all
  have "best_max ?es (legal_moves R b) NegInf None
      (ab_max R (depth - 1) (legal_moves R b) alpha beta NegInf None b)"
    by (rule ab_max_best)
  then show ?thesis
  proof (cases rule: best_max_cases)
    case keep
    then have "?es ! 0 \<le> NegInf" using first(1) by simp
    then show ?thesis using first(2) by simp
  next
    case (beat i)
    have "i < length (legal_moves R b)" using beat(1,2) by simp
    moreover have "\<forall>j<i. ?es ! j \<noteq> ?es ! i" using beat(5) by auto
    ultimately show ?thesis
      unfolding es res using beat(2,3,6) True by auto
  qed
next
  case False
  let ?es = "examined_min R (depth - 1) (legal_moves R b) alpha beta (b, r)"
  have es: "examined R depth alpha beta maximizing (b, r) = ?es"
    using False by (simp add: examined_def)
  have res: "minimax R depth alpha beta maximizing (b, r) =
      Inr (ab_min R (depth - 1) (legal_moves R b) alpha beta PosInf None b, (b, r))"
    using assms False by (simp add: minimax_char(1) ab.simps after_search_def)
  have first: "?es \<noteq> []" "finite_score (?es ! 0)"
    using examined_min_first [OF assms(3), of R "depth - 1" alpha beta b r] by simp_all
  have "best_min ?es (legal_moves R b) PosInf None
      (ab_min R (depth - 1) (legal_moves R b) alpha beta PosInf None b)"
    by (rule ab_min_best)
  then show ?thesis
  proof (cases rule: best_min_cases)
    case keep
    then have "PosInf \<le> ?es ! 0" using first(1) by simp
    then show ?thesis using first(2) by simp
  next
    case (beat i)
    have "i < length (legal_moves R b)" using beat(1,2) by simp
    moreover have "\<forall>j<i. ?es ! j \<noteq> ?es ! i" using beat(5) by auto
    ultimately show ?thesis
      unfolding es res using beat(2,3,6) False by auto
  qed
qed


theorem minimax_earliest_best_witness:
  "\<not> is_game_over tiny_rules (tiny_board WHITE 0) \<and> 0 < (1::nat)
   \<and> legal_moves tiny_rules (tiny_board WHITE 0) \<noteq> []
   \<and> (\<exists>i<length (examined tiny_rules 1 NegInf PosInf True (tiny_board WHITE 0, 0)).
          i < length (legal_moves tiny_rules (tiny_board WHITE 0))
          \<and> minimax tiny_rules 1 NegInf PosInf True (tiny_board WHITE 0, 0) =
               Inr ((examined tiny_rules 1 NegInf PosInf True (tiny_board WHITE 0, 0) ! i,
                     Some (legal_moves tiny_rules (tiny_board WHITE 0) ! i)),
                    (tiny_board WHITE 0, 0))
          \<and> (\<forall>j<i. examined tiny_rules 1 NegInf PosInf True (tiny_board WHITE 0, 0) ! j
                     \<noteq> examined tiny_rules 1 NegInf PosInf True (tiny_board WHITE 0, 0) ! i)
          \<and> (\<forall>j<length (examined tiny_rules 1 NegInf PosInf True (tiny_board WHITE 0, 0)).
                examined tiny_rules 1 NegInf PosInf True (tiny_board WHITE 0, 0) ! j
                  \<le> examined tiny_rules 1 NegInf PosInf True (tiny_board WHITE 0, 0) ! i))"
proof -
  have h: "\<not> is_game_over tiny_rules (tiny_board WHITE 0)" "0 < (1::nat)"
    "legal_moves tiny_rules (tiny_board WHITE 0) \<noteq> []"
    by (simp_all add: tiny_not_over tiny_legal)
  show ?thesis
    using h minimax_earliest_best [OF h, of NegInf PosInf True 0] by simp
qed

text \<open>
  An instance with a tie: the three moves of White score 1.6, 1.1 and 1.6, and the first
  is returned.
\<close>

lemma tiny_examined:
  "examined tiny_rules 1 NegInf PosInf True (tiny_board WHITE 0, 0) =
     [Fin (16 / 10), Fin (11 / 10), Fin (16 / 10)]"
  by code_simp

lemma tiny_ab: "ab tiny_rules 1 NegInf PosInf True (tiny_board WHITE 0) = (Fin (16 / 10), Some 0)"
  by code_simp

lemma tiny_tie:
  "minimax tiny_rules 1 NegInf PosInf True (tiny_board WHITE 0, 0) =
     Inr ((Fin (16 / 10), Some 0), (tiny_board WHITE 0, 0))"
  by (simp only: minimax_char(1) fst_conv snd_conv tiny_ab)
    (simp add: after_search_def tiny_not_over tiny_legal)

end
